theory Spec2Isabelle
  imports Main "HOL-Library.Sublist"
begin

section \<open>JavaScript values and objects\<close>

text \<open>
  The store helpers of \<^verbatim>\<open>src/shared/store.util.ts\<close> work on plain data: a state is
  \<^verbatim>\<open>undefined\<close>, \<^verbatim>\<open>null\<close>, a boolean, a number (an integer here), a string, or a
  reference to an object or an array. Objects live in a heap and are compared by address,
  so an object graph may share and may cycle (\<^verbatim>\<open>obj.self = obj\<close>).
  An object is the list of its own enumerable properties in enumeration order.
  An address beyond the heap reads as an object without properties, so that every
  function below is total.
\<close>

type_synonym addr = nat

datatype jsval = JUndefined | JNull | JBool bool | JNum int | JStr string | JRef addr

type_synonym props = "(string \<times> jsval) list"

datatype jsobj = Object props | Array "jsval list"

type_synonym heap = "jsobj list"

datatype js_error = TypeError | SyntaxError

definition heap_get :: "heap \<Rightarrow> addr \<Rightarrow> jsobj" where
  "heap_get h a = (if a < length h then h ! a else Object [])"

definition alloc :: "heap \<Rightarrow> jsobj \<Rightarrow> jsval \<times> heap" where
  "alloc h obj = (JRef (length h), h @ [obj])"

subsection \<open>Decimal numerals and array indices\<close>

definition digit_char :: "nat \<Rightarrow> char" where
  "digit_char d = ''0123456789'' ! d"

function show_digits :: "int \<Rightarrow> string" where
  "show_digits i =
     (if i < 10 then [digit_char (nat i)]
      else show_digits (i div 10) @ [digit_char (nat (i mod 10))])"
  by pat_completeness auto

termination
  by (relation "measure nat") auto

declare show_digits.simps [simp del]

definition show_int :: "int \<Rightarrow> string" where
  "show_int i = (if i < 0 then CHR ''-'' # show_digits (- i) else show_digits i)"

definition show_nat :: "nat \<Rightarrow> string" where
  "show_nat n = show_digits (int n)"

definition digit_val :: "char \<Rightarrow> int option" where
  "digit_val c = map_of (zip ''0123456789'' [0, 1, 2, 3, 4, 5, 6, 7, 8, 9]) c"

fun read_digits :: "int \<Rightarrow> string \<Rightarrow> int option" where
  "read_digits acc [] = Some acc"
| "read_digits acc (c # cs) =
     (case digit_val c of None \<Rightarrow> None | Some d \<Rightarrow> read_digits (10 * acc + d) cs)"

text \<open>
  A property name is an array index when it is the canonical decimal numeral of an
  integer below \<open>2^32 - 1\<close>; such names enumerate first, in ascending order.
\<close>

definition array_index :: "string \<Rightarrow> int option" where
  "array_index k =
     (if k = [] \<or> (hd k = CHR ''0'' \<and> length k \<noteq> 1) then None
      else (case read_digits 0 k of
              None \<Rightarrow> None
            | Some n \<Rightarrow> if n < 4294967295 then Some n else None))"

definition enumerates_before :: "string \<Rightarrow> string \<Rightarrow> bool" where
  "enumerates_before k k' =
     (case array_index k of
        None \<Rightarrow> False
      | Some i \<Rightarrow> (case array_index k' of None \<Rightarrow> True | Some j \<Rightarrow> i < j))"

subsection \<open>Own properties, property definition and object spread\<close>

definition indexed :: "jsval list \<Rightarrow> props" where
  "indexed vs = zip (map show_nat [0..<length vs]) vs"

text \<open>
  The own enumerable properties that \<^verbatim>\<open>{...source}\<close> copies: nothing for
  \<^verbatim>\<open>undefined\<close>, \<^verbatim>\<open>null\<close>, booleans and numbers, the indexed characters of a string,
  the indexed elements of an array, the properties of an object.
\<close>

fun own_props :: "heap \<Rightarrow> jsval \<Rightarrow> props" where
  "own_props h (JRef a) = (case heap_get h a of Object ps \<Rightarrow> ps | Array vs \<Rightarrow> indexed vs)"
| "own_props h (JStr s) = indexed (map (\<lambda>c. JStr [c]) s)"
| "own_props h JUndefined = []"
| "own_props h JNull = []"
| "own_props h (JBool b) = []"
| "own_props h (JNum n) = []"

fun insert_prop :: "string \<times> jsval \<Rightarrow> props \<Rightarrow> props" where
  "insert_prop kv [] = [kv]"
| "insert_prop kv (p # ps) =
     (if enumerates_before (fst kv) (fst p) then kv # p # ps else p # insert_prop kv ps)"

text \<open>
  Defining a property on an object under construction: an existing name keeps its place
  and takes the new value, a new name is entered where the enumeration order puts it.
\<close>

definition define_prop :: "string \<times> jsval \<Rightarrow> props \<Rightarrow> props" where
  "define_prop kv ps =
     (if fst kv \<in> fst ` set ps then map (\<lambda>p. if fst p = fst kv then kv else p) ps
      else insert_prop kv ps)"

definition copy_props :: "heap \<Rightarrow> jsval \<Rightarrow> props \<Rightarrow> props" where
  "copy_props h src target = fold define_prop (own_props h src) target"

text \<open>The object literal \<^verbatim>\<open>{ ...a, ...b }\<close> is \<open>spread h [a, b]\<close>.\<close>

definition spread :: "heap \<Rightarrow> jsval list \<Rightarrow> props" where
  "spread h srcs = fold (copy_props h) srcs []"

section \<open>JSON text\<close>

text \<open>
  A JSON text is carried as its syntax tree; \<open>json_text\<close> gives its characters as
  \<^verbatim>\<open>JSON.stringify\<close> writes them without indentation.
\<close>

datatype json = TNull | TBool bool | TNum int | TStr string
  | TArr "json list" | TObj "(string \<times> json) list"

fun join :: "string \<Rightarrow> string list \<Rightarrow> string" where
  "join sep [] = []"
| "join sep [x] = x"
| "join sep (x # y # ys) = x @ sep @ join sep (y # ys)"

definition hex_char :: "nat \<Rightarrow> char" where
  "hex_char d = ''0123456789abcdef'' ! d"

definition quote_char :: "char \<Rightarrow> string" where
  "quote_char c =
     (if c = CHR 0x22 then [CHR 0x5C, CHR 0x22]
      else if c = CHR 0x5C then [CHR 0x5C, CHR 0x5C]
      else if c = CHR 0x08 then [CHR 0x5C, CHR ''b'']
      else if c = CHR 0x09 then [CHR 0x5C, CHR ''t'']
      else if c = CHR 0x0A then [CHR 0x5C, CHR ''n'']
      else if c = CHR 0x0C then [CHR 0x5C, CHR ''f'']
      else if c = CHR 0x0D then [CHR 0x5C, CHR ''r'']
      else if (of_char c :: nat) < 32
        then [CHR 0x5C, CHR ''u'', CHR ''0'', CHR ''0'',
              hex_char (of_char c div 16), hex_char (of_char c mod 16)]
      else [c])"

definition quote :: "string \<Rightarrow> string" where
  "quote s = CHR 0x22 # concat (map quote_char s) @ [CHR 0x22]"

fun json_text :: "json \<Rightarrow> string" where
  "json_text TNull = ''null''"
| "json_text (TBool b) = (if b then ''true'' else ''false'')"
| "json_text (TNum n) = show_int n"
| "json_text (TStr s) = quote s"
| "json_text (TArr ts) = ''['' @ join '','' (map json_text ts) @ '']''"
| "json_text (TObj ms) =
     ''{'' @ join '','' (map (\<lambda>m. quote (fst m) @ '':'' @ json_text (snd m)) ms) @ ''}''"

section \<open>JSON.stringify with a replacer function\<close>

text \<open>
  \<open>ser_prop\<close> is the platform's SerializeJSONProperty for a holder, a property name and
  the property's value: the replacer function is called first (with the holder as
  \<^verbatim>\<open>this\<close>), then the value it returned is written. An object or an array that is already
  on the platform's own stack raises a TypeError (``cyclic object value''); otherwise it
  is pushed and its members are serialised in turn by \<open>ser_members\<close>. The replacer is a
  closure with private state of type \<open>'s\<close>, threaded through the calls. A member whose
  value serialises to \<^verbatim>\<open>undefined\<close> is left out of an object and written \<^verbatim>\<open>null\<close> in an
  array.
\<close>

type_synonym 's replacer_fn = "'s \<Rightarrow> jsval \<Rightarrow> string \<Rightarrow> jsval \<Rightarrow> jsval \<times> 's"

definition assemble :: "jsobj \<Rightarrow> (string \<times> json option) list \<Rightarrow> json" where
  "assemble obj ms =
     (case obj of
        Object ps \<Rightarrow> TObj (concat (map (\<lambda>m. case snd m of None \<Rightarrow> [] | Some t \<Rightarrow> [(fst m, t)]) ms))
      | Array vs \<Rightarrow> TArr (map (\<lambda>m. case snd m of None \<Rightarrow> TNull | Some t \<Rightarrow> t) ms))"

lemma unvisited_card_less:
  assumes "a \<notin> set stk" and "a < length h"
  shows "card ({..<length h} - set (stk @ [a])) < card ({..<length h} - set stk)"
proof -
  have "{..<length h} - set (stk @ [a]) \<subset> {..<length h} - set stk"
    using assms by auto
  then show ?thesis
    by (intro psubset_card_mono) auto
qed

function ser_prop ::
    "'s replacer_fn \<Rightarrow> heap \<Rightarrow> addr list \<Rightarrow> 's \<Rightarrow> jsval \<Rightarrow> string \<Rightarrow> jsval
      \<Rightarrow> js_error + (json option \<times> 's)"
  and ser_members ::
    "'s replacer_fn \<Rightarrow> heap \<Rightarrow> addr list \<Rightarrow> 's \<Rightarrow> jsval \<Rightarrow> props
      \<Rightarrow> js_error + ((string \<times> json option) list \<times> 's)"
where
  "ser_prop rep h stk s holder key v0 =
     (case rep s holder key v0 of
        (v, s1) \<Rightarrow>
          (case v of
             JUndefined \<Rightarrow> Inr (None, s1)
           | JNull \<Rightarrow> Inr (Some TNull, s1)
           | JBool b \<Rightarrow> Inr (Some (TBool b), s1)
           | JNum n \<Rightarrow> Inr (Some (TNum n), s1)
           | JStr str \<Rightarrow> Inr (Some (TStr str), s1)
           | JRef a \<Rightarrow>
               if a \<in> set stk then Inl TypeError
               else (case ser_members rep h (stk @ [a]) s1 (JRef a) (own_props h (JRef a)) of
                       Inl e \<Rightarrow> Inl e
                     | Inr (ms, s2) \<Rightarrow> Inr (Some (assemble (heap_get h a) ms), s2))))"
| "ser_members rep h stk s holder [] = Inr ([], s)"
| "ser_members rep h stk s holder (p # ps) =
     (case ser_prop rep h stk s holder (fst p) (snd p) of
        Inl e \<Rightarrow> Inl e
      | Inr (j, s1) \<Rightarrow>
          (case ser_members rep h stk s1 holder ps of
             Inl e \<Rightarrow> Inl e
           | Inr (ms, s2) \<Rightarrow> Inr ((fst p, j) # ms, s2)))"
  by pat_completeness auto

termination
proof (relation "inv_image (less_than <*lex*> less_than)
    (\<lambda>x. case x of
       Inl (rep, h, stk, s, holder, key, v0) \<Rightarrow> (card ({..<length h} - set stk), 1)
     | Inr (rep, h, stk, s, holder, ps) \<Rightarrow> (card ({..<length h} - set stk), 2 * length ps))")
  show "wf (inv_image (less_than <*lex*> less_than)
    (\<lambda>x. case x of
       Inl (rep :: 's replacer_fn, h :: heap, stk :: addr list, s :: 's, holder :: jsval,
            key :: string, v0 :: jsval) \<Rightarrow> (card ({..<length h} - set stk), 1 :: nat)
     | Inr (rep, h, stk, s, holder, ps :: props) \<Rightarrow>
         (card ({..<length h} - set stk), 2 * length ps)))"
    by (intro wf_inv_image wf_lex_prod wf_less_than)
next
  fix rep :: "'s replacer_fn" and h :: heap and stk :: "addr list" and s :: 's
    and holder :: jsval and key :: string and v0 v :: jsval and s1 :: 's and a :: addr
  assume "a \<notin> set stk"
  show "(Inr (rep, h, stk @ [a], s1, JRef a, own_props h (JRef a)),
         Inl (rep, h, stk, s, holder, key, v0))
        \<in> inv_image (less_than <*lex*> less_than)
            (\<lambda>x. case x of
               Inl (rep, h, stk, s, holder, key, v0) \<Rightarrow> (card ({..<length h} - set stk), 1)
             | Inr (rep, h, stk, s, holder, ps) \<Rightarrow>
                 (card ({..<length h} - set stk), 2 * length ps))"
  proof (cases "a < length h")
    case True
    with \<open>a \<notin> set stk\<close> show ?thesis
      using unvisited_card_less [of a stk h] by simp
  next
    case False
    then have "{..<length h} - set (stk @ [a]) = {..<length h} - set stk"
      by auto
    with False show ?thesis
      by (simp add: heap_get_def)
  qed
qed auto

declare ser_prop.simps [simp del]

definition JSON_stringify ::
    "heap \<Rightarrow> jsval \<Rightarrow> 's replacer_fn \<Rightarrow> 's \<Rightarrow> js_error + json option" where
  \<comment> \<open>The first call is made on a fresh wrapper object \<^verbatim>\<open>{'': value}\<close>, which is not on
      the platform's stack; the first free address stands for it. \<open>None\<close> is the result
      \<^verbatim>\<open>undefined\<close>.\<close>
  "JSON_stringify h v rep s0 =
     (case ser_prop rep h [] s0 (JRef (length h)) [] v of
        Inl e \<Rightarrow> Inl e
      | Inr (j, s) \<Rightarrow> Inr j)"

definition JSON_parse :: "json option \<Rightarrow> js_error + json" where
  \<comment> \<open>\<^verbatim>\<open>JSON.parse\<close> reads a JSON text back as the data it denotes; given \<^verbatim>\<open>undefined\<close> it
      reads the characters \<^verbatim>\<open>undefined\<close>, which are no JSON text.\<close>
  "JSON_parse text = (case text of None \<Rightarrow> Inl SyntaxError | Some t \<Rightarrow> Inr t)"

section \<open>The circular-safe serializer (store.util.ts, lines 43-67)\<close>

record rstate =
  stack :: "jsval list"
  keys :: "string list"

fun indexOf :: "'a list \<Rightarrow> 'a \<Rightarrow> nat option" where
  \<comment> \<open>\<open>None\<close> is the result \<open>-1\<close>.\<close>
  "indexOf [] x = None"
| "indexOf (y # ys) x = (if y = x then Some 0 else map_option Suc (indexOf ys x))"

definition js_nth :: "jsval list \<Rightarrow> nat \<Rightarrow> jsval" where
  "js_nth xs i = (if i < length xs then xs ! i else JUndefined)"

definition slice_from_start :: "'a list \<Rightarrow> nat option \<Rightarrow> 'a list" where
  \<comment> \<open>\<^verbatim>\<open>xs.slice(0, i)\<close>, where the end \<open>-1\<close> stops before the last element.\<close>
  "slice_from_start xs i = (case i of None \<Rightarrow> butlast xs | Some n \<Rightarrow> take n xs)"

definition default_cycleReplacer :: "rstate \<Rightarrow> jsval \<Rightarrow> string \<Rightarrow> jsval \<Rightarrow> jsval" where
  "default_cycleReplacer rs holder key v =
     (if js_nth (stack rs) 0 = v then JStr ''[Circular ~]''
      else JStr (''[Circular ~.''
                 @ join ''.'' (slice_from_start (keys rs) (indexOf (stack rs) v)) @ '']''))"

type_synonym custom_fn = "jsval \<Rightarrow> string \<Rightarrow> jsval \<Rightarrow> jsval"

definition serializer :: "custom_fn option \<Rightarrow> custom_fn option \<Rightarrow> rstate replacer_fn" where
  "serializer replacer cycleReplacer rs holder key v0 =
     (case
        (if length (stack rs) > 0 then
           (let thisPos = indexOf (stack rs) holder;
                rs1 = (case thisPos of
                         Some p \<Rightarrow> \<lparr>stack = take (p + 1) (stack rs), keys = take p (keys rs) @ [key]\<rparr>
                       | None \<Rightarrow> \<lparr>stack = stack rs @ [holder], keys = keys rs @ [key]\<rparr>)
            in (if indexOf (stack rs1) v0 \<noteq> None
                then (case cycleReplacer of
                        None \<Rightarrow> default_cycleReplacer rs1 holder key v0
                      | Some f \<Rightarrow> f holder key v0)
                else v0, rs1))
         else (v0, \<lparr>stack = stack rs @ [v0], keys = keys rs\<rparr>))
      of (v, rs1) \<Rightarrow>
        (case replacer of None \<Rightarrow> (v, rs1) | Some f \<Rightarrow> (f holder key v, rs1)))"

definition serializer_init :: rstate where
  "serializer_init = \<lparr>stack = [], keys = []\<rparr>"

definition snapshot :: "heap \<Rightarrow> jsval \<Rightarrow> js_error + json" where
  \<comment> \<open>\<^verbatim>\<open>JSON.parse(JSON.stringify(prevStore, serializer()))\<close>\<close>
  "snapshot h v =
     (case JSON_stringify h v (serializer None None) serializer_init of
        Inl e \<Rightarrow> Inl e
      | Inr text \<Rightarrow> JSON_parse text)"

section \<open>The console, the flag and the container\<close>

text \<open>
  A console call records its arguments: a value of the running program, or the data that
  \<^verbatim>\<open>JSON.parse\<close> built for the snapshot of the previous state (fresh objects that nothing
  else refers to, kept as the tree they form).
\<close>

datatype console_arg = Live jsval | Parsed json

datatype console_call = GroupCollapsed "console_arg list" | Log "console_arg list"
  | Trace | GroupEnd

record world =
  objects :: heap
  enabled :: bool
  console :: "console_call list"
  current :: jsval

text \<open>
  \<open>enabled\<close> is the process-wide \<^verbatim>\<open>loggable.enabled\<close> (set to true when the module loads,
  line 22), \<open>current\<close> the value the base container holds. The base container is the
  framework's \<^verbatim>\<open>writable\<close>: \<^verbatim>\<open>get\<close> reads its value and \<^verbatim>\<open>set\<close> replaces it.
\<close>

definition writable :: "jsval option \<Rightarrow> jsval" where
  "writable initial = (case initial of None \<Rightarrow> JUndefined | Some v \<Rightarrow> v)"

definition get :: "world \<Rightarrow> jsval" where
  "get w = current w"

definition writable_set :: "jsval \<Rightarrow> world \<Rightarrow> world" where
  "writable_set v w = w\<lparr>current := v\<rparr>"

section \<open>The update orchestrator (lines 35-41 and 69-89)\<close>

definition log :: "jsval \<Rightarrow> jsval \<Rightarrow> jsval \<Rightarrow> console_arg \<Rightarrow> jsval \<Rightarrow> console_call list" where
  "log functionName functionLink newPartial prevState nextState =
     [GroupCollapsed [Live functionName, Live newPartial, Live functionLink],
      Log [Live (JStr ''PREV STATE''), prevState],
      Log [Live (JStr ''NEXT STATE''), Live nextState],
      Trace,
      GroupEnd]"

fun js_split_from :: "string \<Rightarrow> string \<Rightarrow> string \<Rightarrow> string list" where
  "js_split_from sep cur [] = [rev cur]"
| "js_split_from sep cur (c # cs) =
     (if sep \<noteq> [] \<and> prefix sep (c # cs)
      then rev cur # js_split_from sep [] (drop (length sep - 1) cs)
      else js_split_from sep (c # cur) cs)"

definition js_split :: "string \<Rightarrow> string \<Rightarrow> string list" where
  \<comment> \<open>\<^verbatim>\<open>text.split(sep)\<close> for a separator that is not empty\<close>
  "js_split sep text = js_split_from sep [] text"

definition js_elem :: "string list \<Rightarrow> nat \<Rightarrow> jsval" where
  "js_elem xs i = (if i < length xs then JStr (xs ! i) else JUndefined)"

text \<open>
  Lines 81-85. The text of \<^verbatim>\<open>new Error().stack\<close> is an input from the engine (\<open>None\<close>
  where the engine gives none). Reading \<^verbatim>\<open>.split(' ')\<close> of the entry at index 4 raises a
  TypeError when the split has no such entry.
\<close>

definition stack_info :: "string option \<Rightarrow> js_error + (jsval \<times> jsval)" where
  "stack_info trace =
     (case trace of
        None \<Rightarrow> Inl TypeError
      | Some stack_text \<Rightarrow>
          (let frames = js_split ''at '' stack_text in
           if length frames \<le> 4 then Inl TypeError
           else (let stackInfo = js_split '' '' (frames ! 4)
                 in Inr (js_elem stackInfo 0, js_elem stackInfo 1))))"

text \<open>
  An update action is a partial value or a function of the previous state. The function
  is handed the state the container holds, the live object and not a copy (line 75). It
  may read the heap and the flag, build new objects, write and delete properties of any
  object, the state object included, and set the flag. It returns the heap and the flag
  as it leaves them, and its result.
\<close>

type_synonym updater = "heap \<Rightarrow> bool \<Rightarrow> jsval \<Rightarrow> heap \<times> bool \<times> jsval"

datatype action = Partial jsval | Updater updater

definition apply_action :: "action \<Rightarrow> world \<Rightarrow> jsval \<Rightarrow> jsval \<times> world" where
  "apply_action act w prevStore =
     (case act of
        Partial p \<Rightarrow> (p, w)
      | Updater f \<Rightarrow>
          (case f (objects w) (enabled w) prevStore of
             (h1, en, r) \<Rightarrow> (r, w\<lparr>objects := h1, enabled := en\<rparr>)))"

text \<open>
  Lines 76-79 build the next state when the action has returned: the spread reads the
  properties the state object has at that moment.
\<close>

text \<open>
  \<open>update\<close> returns \<open>Inr\<close> the world after the call, or \<open>Inl\<close> the exception that left it
  together with the world at that point.
\<close>

definition update :: "action \<Rightarrow> string option \<Rightarrow> world \<Rightarrow> js_error \<times> world + world" where
  "update act trace w =
     (let prevStore = get w in
      case (if enabled w
            then (case snapshot (objects w) prevStore of Inl e \<Rightarrow> Inl e | Inr t \<Rightarrow> Inr (Parsed t))
            else Inr (Live JUndefined)) of
        Inl e \<Rightarrow> Inl (e, w)
      | Inr ps \<Rightarrow>
          (case apply_action act w prevStore of
             (result, w1) \<Rightarrow>
               (case alloc (objects w1) (Object (spread (objects w1) [prevStore, result])) of
                  (ns, h2) \<Rightarrow>
                    (let w2 = w1\<lparr>objects := h2\<rparr> in
                     if enabled w2 then
                       (case stack_info trace of
                          Inl e \<Rightarrow> Inl (e, w2)
                        | Inr (functionName, functionLink) \<Rightarrow>
                            Inr (writable_set ns
                                  (w2\<lparr>console := console w2
                                        @ log functionName functionLink result ps ns\<rparr>)))
                     else Inr (writable_set ns w2)))))"

section \<open>The logging decorator (lines 6-33)\<close>

text \<open>
  The decorated container's \<^verbatim>\<open>update\<close> and \<^verbatim>\<open>set\<close> both call the orchestrator;
  \<^verbatim>\<open>subscribe\<close> is handed to the base container as it is and has no part below.
\<close>

definition loggableFunction :: "jsval option \<Rightarrow> jsval" where
  \<comment> \<open>The container is given by the value it holds; without one, line 7 creates an empty
      \<^verbatim>\<open>writable\<close>.\<close>
  "loggableFunction store = (case store of None \<Rightarrow> writable None | Some s \<Rightarrow> s)"

definition loggable_update :: "updater \<Rightarrow> string option \<Rightarrow> world \<Rightarrow> js_error \<times> world + world" where
  "loggable_update updater = update (Updater updater)"

definition loggable_set :: "jsval \<Rightarrow> string option \<Rightarrow> world \<Rightarrow> js_error \<times> world + world" where
  "loggable_set v = update (Partial v)"

section \<open>The merge decorator (lines 105-111)\<close>

text \<open>
  \<^verbatim>\<open>mergeable(initialValue)\<close> is a \<^verbatim>\<open>writable\<close> with one more method, \<^verbatim>\<open>merge\<close> (the
  optional start notifier of the framework is left out).
\<close>

definition mergeable :: "jsval option \<Rightarrow> jsval" where
  "mergeable initialValue = writable initialValue"

definition merge :: "jsval \<Rightarrow> world \<Rightarrow> world" where
  "merge v w =
     (case alloc (objects w) (Object (spread (objects w) [get w, v])) of
        (ns, h1) \<Rightarrow> writable_set ns (w\<lparr>objects := h1\<rparr>))"

section \<open>Notions the properties are stated with\<close>

text \<open>
  Reading a property by name: an object lists a name once; should a list name it twice,
  the later entry counts, as in an object literal.
\<close>

definition prop_get :: "props \<Rightarrow> string \<Rightarrow> jsval option" where
  "prop_get ps k = map_of (rev ps) k"

definition prop_names :: "props \<Rightarrow> string set" where
  "prop_names ps = fst ` set ps"

text \<open>A value of a heap: a primitive, or a reference to one of the heap's objects.\<close>

definition valid_in :: "heap \<Rightarrow> jsval \<Rightarrow> bool" where
  "valid_in h v = (case v of JRef a \<Rightarrow> a < length h | _ \<Rightarrow> True)"


subsection \<open>Circular references in a serialised state\<close>

text \<open>
  The placeholder the default cycle replacer writes for an ancestor reached from the root
  by the property names \<open>ks\<close>; a walk through the heap, each step a property name and the
  object that property refers to; and the string found in a JSON tree at a path of
  property names (an array element is named by its index).
\<close>

definition circular_placeholder :: "string list \<Rightarrow> string" where
  "circular_placeholder ks =
     (if ks = [] then ''[Circular ~]'' else ''[Circular ~.'' @ join ''.'' ks @ '']'')"

fun is_walk :: "heap \<Rightarrow> addr \<Rightarrow> (string \<times> addr) list \<Rightarrow> bool" where
  "is_walk h a [] = True"
| "is_walk h a (step # rest) =
     ((fst step, JRef (snd step)) \<in> set (own_props h (JRef a)) \<and> is_walk h (snd step) rest)"

inductive leaf_at :: "json \<Rightarrow> string list \<Rightarrow> string \<Rightarrow> bool" where
  here: "leaf_at (TStr s) [] s"
| member: "(k, t) \<in> set ms \<Longrightarrow> leaf_at t ks s \<Longrightarrow> leaf_at (TObj ms) (k # ks) s"
| element: "i < length ts \<Longrightarrow> leaf_at (ts ! i) ks s \<Longrightarrow> leaf_at (TArr ts) (show_nat i # ks) s"

text \<open>
  What the serializer's private arrays hold while the members of the object on top of the
  platform's stack \<open>stk\<close> are serialised: the chain of open objects, and the property
  names \<open>kp\<close> leading from the root to the top one (possibly followed by what is left of
  an earlier member's subtree, or not yet extended by the top object itself).
\<close>

definition tracks :: "addr list \<Rightarrow> string list \<Rightarrow> rstate \<Rightarrow> bool" where
  "tracks stk kp rs \<longleftrightarrow>
     distinct stk \<and> stk \<noteq> [] \<and> Suc (length kp) = length stk \<and> stack rs \<noteq> [] \<and>
     ((stack rs = map JRef (butlast stk) \<and> keys rs = kp)
      \<or> (prefix (map JRef stk) (stack rs) \<and> prefix kp (keys rs)))"

subsection \<open>Objects built by property definition\<close>

text \<open>
  A list of names in enumeration order, a property list as property definition builds
  it, and the entry a property ends as when the properties \<open>qs\<close> are written over it.
\<close>

fun ordered_names :: "string list \<Rightarrow> bool" where
  "ordered_names [] = True"
| "ordered_names (k # ks) = ((\<forall>k' \<in> set ks. \<not> enumerates_before k' k) \<and> ordered_names ks)"

definition normal :: "props \<Rightarrow> bool" where
  "normal ps \<longleftrightarrow> distinct (map fst ps) \<and> ordered_names (map fst ps)"

definition settle :: "props \<Rightarrow> string \<times> jsval \<Rightarrow> string \<times> jsval" where
  "settle qs p = (case prop_get qs (fst p) of None \<Rightarrow> p | Some v \<Rightarrow> (fst p, v))"

subsection \<open>Example data\<close>

text \<open>
  The container of \<^verbatim>\<open>messages.store.ts\<close> holding \<^verbatim>\<open>{message: 'hello'}\<close>, next to the
  object \<^verbatim>\<open>{message: 'world'}\<close> that a caller passes to \<^verbatim>\<open>set\<close>; a container created
  without a value; and the counter of the specification's example.
\<close>

definition hello_world :: heap where
  "hello_world =
     [Object [(''message'', JStr ''hello'')], Object [(''message'', JStr ''world'')]]"

definition messages_store :: "bool \<Rightarrow> world" where
  "messages_store en = \<lparr>objects = hello_world, enabled = en, console = [], current = JRef 0\<rparr>"

definition empty_store :: "bool \<Rightarrow> world" where
  "empty_store en =
     \<lparr>objects = hello_world, enabled = en, console = [], current = loggableFunction None\<rparr>"

definition counter_store :: "bool \<Rightarrow> world" where
  "counter_store en =
     \<lparr>objects = [Object [(''a'', JNum 1), (''b'', JNum 2)]], enabled = en, console = [],
      current = JRef 0\<rparr>"

definition increment_b :: updater where
  \<comment> \<open>\<^verbatim>\<open>prev => ({b: prev.b + 1})\<close>\<close>
  "increment_b h en prev =
     (h @ [Object [(''b'', case map_of (own_props h prev) ''b'' of
                             Some (JNum n) \<Rightarrow> JNum (n + 1)
                           | _ \<Rightarrow> JUndefined)]],
      en, JRef (length h))"

definition delete_a :: updater where
  \<comment> \<open>\<^verbatim>\<open>prev => { delete prev.a; return {} }\<close> for a state that is an object\<close>
  "delete_a h en prev =
     ((case prev of
         JRef a \<Rightarrow>
           (case heap_get h a of
              Object ps \<Rightarrow> h[a := Object (filter (\<lambda>p. fst p \<noteq> ''a'') ps)]
            | Array vs \<Rightarrow> h)
       | _ \<Rightarrow> h) @ [Object []],
      en, JRef (length h))"

definition counter_without_a :: world where
  \<comment> \<open>the counter after the update with \<open>delete_a\<close>, logging off\<close>
  "counter_without_a =
     \<lparr>objects = [Object [(''b'', JNum 2)], Object [], Object [(''b'', JNum 2)]],
      enabled = False, console = [], current = JRef 2\<rparr>"

definition counter_between :: world where
  \<comment> \<open>the counter after \<open>increment_b\<close> has built \<^verbatim>\<open>{b: 3}\<close>\<close>
  "counter_between =
     \<lparr>objects = [Object [(''a'', JNum 1), (''b'', JNum 2)], Object [(''b'', JNum 3)]],
      enabled = True, console = [], current = JRef 0\<rparr>"

definition counter_after :: world where
  \<comment> \<open>the counter after the update, logged from \<open>v8_trace\<close>\<close>
  "counter_after =
     \<lparr>objects = [Object [(''a'', JNum 1), (''b'', JNum 2)], Object [(''b'', JNum 3)],
                 Object [(''a'', JNum 1), (''b'', JNum 3)]],
      enabled = True,
      console =
        [GroupCollapsed [Live (JStr ''HTMLButtonElement.click''), Live (JRef 1),
                         Live (JStr ''(App.svelte:21:5)'')],
         Log [Live (JStr ''PREV STATE''), Parsed (TObj [(''a'', TNum 1), (''b'', TNum 2)])],
         Log [Live (JStr ''NEXT STATE''), Live (JRef 2)],
         Trace,
         GroupEnd],
      current = JRef 2\<rparr>"

definition messages_set_once :: world where
  "messages_set_once =
     \<lparr>objects = hello_world @ [Object [(''message'', JStr ''world'')]], enabled = False,
      console = [], current = JRef 2\<rparr>"

definition messages_set_twice :: world where
  "messages_set_twice =
     \<lparr>objects = hello_world @ [Object [(''message'', JStr ''world'')],
                                 Object [(''message'', JStr ''world'')]],
      enabled = False, console = [], current = JRef 3\<rparr>"

definition self_reference :: heap where
  \<comment> \<open>\<^verbatim>\<open>obj.self = obj\<close>\<close>
  "self_reference = [Object [(''self'', JRef 0)]]"

definition nested_reference :: heap where
  \<comment> \<open>\<^verbatim>\<open>obj = {a: {b: {}}}; obj.a.b.up = obj.a\<close>\<close>
  "nested_reference =
     [Object [(''a'', JRef 1)], Object [(''b'', JRef 2)], Object [(''up'', JRef 1)]]"

definition switch_logging :: "bool \<Rightarrow> updater" where
  \<comment> \<open>\<^verbatim>\<open>prev => { loggable.enabled = b; return {message: 'world'} }\<close> on the heap
      \<open>hello_world\<close>\<close>
  "switch_logging b h en prev = (h, b, JRef 1)"

text \<open>
  The stack text of an engine that writes frames as \<^verbatim>\<open>at name (location)\<close>, for a call
  four frames deep, and of an engine that writes them as \<^verbatim>\<open>name@location\<close>.
\<close>

definition v8_trace :: string where
  "v8_trace = ''Error\<newline>    at update (store.util.ts:81:17)\<newline>    at Object.set (store.util.ts:13:7)\<newline>    at greet (App.svelte:9:18)\<newline>    at HTMLButtonElement.click (App.svelte:21:5)''"

definition spidermonkey_trace :: string where
  "spidermonkey_trace = ''update@http://localhost:3000/src/shared/store.util.ts:81:17\<newline>set@http://localhost:3000/src/shared/store.util.ts:13:7\<newline>greet@http://localhost:3000/src/App.svelte:9:18\<newline>''"

section \<open>Property lists\<close>

lemma prop_get_Nil: "prop_get [] k = None"
  by (simp add: prop_get_def)

lemma prop_get_Cons:
  "prop_get (p # ps) k =
     (case prop_get ps k of Some v \<Rightarrow> Some v | None \<Rightarrow> if k = fst p then Some (snd p) else None)"
  by (cases p) (auto simp: prop_get_def map_add_def split: option.splits)

lemma prop_get_None_iff: "prop_get ps k = None \<longleftrightarrow> k \<notin> prop_names ps"
  by (simp add: prop_get_def prop_names_def map_of_eq_None_iff)

lemma prop_get_Some_names: "prop_get ps k = Some v \<Longrightarrow> k \<in> fst ` set ps"
  using prop_get_None_iff [of ps k] by (auto simp: prop_names_def)

lemma set_insert_prop: "set (insert_prop kv ps) = insert kv (set ps)"
  by (induction ps) auto

lemma prop_get_insert_prop:
  "fst kv \<notin> prop_names ps \<Longrightarrow>
     prop_get (insert_prop kv ps) k = ((prop_get ps)(fst kv \<mapsto> snd kv)) k"
proof (induction ps)
  case Nil
  show ?case by (simp add: prop_get_Cons prop_get_Nil)
next
  case (Cons p ps)
  from Cons.prems have new: "fst kv \<noteq> fst p" "fst kv \<notin> prop_names ps"
    by (auto simp: prop_names_def)
  then have none: "prop_get ps (fst kv) = None" "prop_get (p # ps) (fst kv) = None"
    using Cons.prems by (simp_all add: prop_get_None_iff)
  show ?case
  proof (cases "enumerates_before (fst kv) (fst p)")
    case True
    then have "prop_get (insert_prop kv (p # ps)) k = prop_get (kv # p # ps) k"
      by simp
    also have "\<dots> = ((prop_get (p # ps))(fst kv \<mapsto> snd kv)) k"
      using none(2)
      by (cases "k = fst kv") (simp_all add: prop_get_Cons [of kv] split: option.splits)
    finally show ?thesis .
  next
    case False
    then have "prop_get (insert_prop kv (p # ps)) k = prop_get (p # insert_prop kv ps) k"
      by simp
    also have "\<dots> = ((prop_get (p # ps))(fst kv \<mapsto> snd kv)) k"
      using Cons.IH [OF new(2)] new(1) none(1)
      by (cases "k = fst kv") (simp_all add: prop_get_Cons [of p] split: option.splits)
    finally show ?thesis .
  qed
qed

lemma prop_get_overwrite:
  "prop_get (map (\<lambda>p. if fst p = fst kv then kv else p) ps) k =
     (if k = fst kv \<and> fst kv \<in> prop_names ps then Some (snd kv) else prop_get ps k)"
proof (induction ps)
  case Nil
  show ?case by (simp add: prop_get_Nil prop_names_def)
next
  case (Cons p ps)
  show ?case
    using Cons.IH
    by (auto simp: prop_get_Cons prop_names_def prop_get_None_iff [unfolded prop_names_def]
          split: option.splits dest: prop_get_Some_names)
qed

lemma prop_get_define_prop:
  "prop_get (define_prop kv ps) k = ((prop_get ps)(fst kv \<mapsto> snd kv)) k"
proof (cases "fst kv \<in> prop_names ps")
  case True
  then show ?thesis
    by (simp add: define_prop_def prop_get_overwrite prop_names_def)
next
  case False
  then show ?thesis
    using prop_get_insert_prop [OF False, of k]
    by (simp add: define_prop_def prop_names_def)
qed

lemma prop_get_fold_define_prop:
  "prop_get (fold define_prop qs ps) k =
     (case prop_get qs k of Some v \<Rightarrow> Some v | None \<Rightarrow> prop_get ps k)"
proof (induction qs arbitrary: ps)
  case Nil
  show ?case by (simp add: prop_get_Nil)
next
  case (Cons q qs)
  show ?case
    by (simp add: Cons.IH prop_get_define_prop prop_get_Cons split: option.splits)
qed

lemma prop_names_define_prop:
  "prop_names (define_prop kv ps) = insert (fst kv) (prop_names ps)"
  by (auto simp: prop_names_def define_prop_def set_insert_prop image_iff split: if_splits)

lemma prop_names_fold_define_prop:
  "prop_names (fold define_prop qs ps) = prop_names ps \<union> prop_names qs"
proof (induction qs arbitrary: ps)
  case Nil
  show ?case by (simp add: prop_names_def)
next
  case (Cons q qs)
  have "prop_names (q # qs) = insert (fst q) (prop_names qs)"
    by (simp add: prop_names_def)
  then show ?case
    by (simp add: Cons.IH prop_names_define_prop)
qed

lemma prop_get_spread2:
  "prop_get (spread h [a, b]) k =
     (case prop_get (own_props h b) k of Some v \<Rightarrow> Some v | None \<Rightarrow> prop_get (own_props h a) k)"
  by (simp add: spread_def copy_props_def prop_get_fold_define_prop prop_get_Nil
        split: option.splits)

lemma prop_names_spread2:
  "prop_names (spread h [a, b]) = prop_names (own_props h a) \<union> prop_names (own_props h b)"
  by (simp add: spread_def copy_props_def prop_names_fold_define_prop) (simp add: prop_names_def)

lemma heap_get_alloc_new: "heap_get (h @ [obj]) (length h) = obj"
  by (simp add: heap_get_def)

lemma own_props_append: "valid_in h v \<Longrightarrow> own_props (h @ extra) v = own_props h v"
  by (cases v) (simp_all add: valid_in_def heap_get_def nth_append)

section \<open>The shallow merge law\<close>

lemma update_Inr_shape:
  assumes "update act trace w = Inr w'" and "apply_action act w (get w) = (partial, w1)"
  shows "current w' = JRef (length (objects w1))"
    and "objects w' = objects w1 @ [Object (spread (objects w1) [get w, partial])]"
    and "enabled w' = enabled w1"
  using assms
  by (auto simp: update_def Let_def alloc_def writable_set_def
        split: if_splits sum.splits prod.splits)

lemma merge_shape:
  "merge p w = writable_set (JRef (length (objects w)))
     (w\<lparr>objects := objects w @ [Object (spread (objects w) [get w, p])]\<rparr>)"
  by (simp add: merge_def alloc_def)

lemma update_props:
  assumes "update act trace w = Inr w'" and "apply_action act w (get w) = (partial, w1)"
  shows "own_props (objects w') (get w') = spread (objects w1) [get w, partial]"
  using update_Inr_shape [OF assms] by (simp add: get_def heap_get_alloc_new)

lemma merge_props:
  "own_props (objects (merge p w)) (get (merge p w)) = spread (objects w) [get w, p]"
  by (simp add: merge_shape writable_set_def get_def heap_get_alloc_new)

lemma update_merge_law:
  assumes "update act trace w = Inr w'" and "apply_action act w (get w) = (partial, w1)"
  shows "get w' = JRef (length (objects w1))"
    and "prop_get (own_props (objects w') (get w')) k =
           (case prop_get (own_props (objects w1) partial) k of
              Some v \<Rightarrow> Some v
            | None \<Rightarrow> prop_get (own_props (objects w1) (get w)) k)"
proof -
  from update_Inr_shape(1) [OF assms] show "get w' = JRef (length (objects w1))"
    by (simp add: get_def)
  have "own_props (objects w') (get w') = spread (objects w1) [get w, partial]"
    by (rule update_props [OF assms])
  then show "prop_get (own_props (objects w') (get w')) k =
           (case prop_get (own_props (objects w1) partial) k of
              Some v \<Rightarrow> Some v
            | None \<Rightarrow> prop_get (own_props (objects w1) (get w)) k)"
    by (simp only: prop_get_spread2)
qed

lemma counter_update_run:
  "update (Updater increment_b) (Some v8_trace) (counter_store True) = Inr counter_after"
  by code_simp

lemma counter_action_run:
  "apply_action (Updater increment_b) (counter_store True) (get (counter_store True)) =
     (JRef 1, counter_between)"
  by code_simp

lemma counter_delete_run:
  "update (Updater delete_a) None (counter_store False) = Inr counter_without_a"
  by code_simp

lemma messages_set_runs:
  "update (Partial (JRef 1)) None (messages_store False) = Inr messages_set_once"
  "update (Partial (JRef 1)) None messages_set_once = Inr messages_set_twice"
  by code_simp+

text \<open>
  Claim C1 as stated fails for a function that changes the state object it is handed.
  The counter holds \<^verbatim>\<open>{a: 1, b: 2}\<close>; the function \<^verbatim>\<open>prev => { delete prev.a; return {} }\<close>
  returns the partial \<^verbatim>\<open>{}\<close>, which does not mention \<^verbatim>\<open>a\<close>, and the published state is
  \<^verbatim>\<open>{b: 2}\<close>: the property \<^verbatim>\<open>a\<close> of the previous state is not retained.
\<close>

theorem mutating_updater_drops_property:
  "prop_get (own_props (objects (counter_store False)) (get (counter_store False))) ''a''
     = Some (JNum 1)
   \<and> update (Updater delete_a) None (counter_store False) = Inr counter_without_a
   \<and> fst (apply_action (Updater delete_a) (counter_store False) (get (counter_store False)))
       = JRef 1
   \<and> own_props (objects counter_without_a) (JRef 1) = []
   \<and> own_props (objects counter_without_a) (get counter_without_a) = [(''b'', JNum 2)]
   \<and> prop_get (own_props (objects counter_without_a) (get counter_without_a)) ''a'' = None"
  by code_simp

text \<open>
  Claim C1, amended. Whenever \<open>update\<close> publishes, the container then holds a fresh object
  whose properties are those the previous state object has when the action has returned,
  overlaid with those of the partial: a name of the partial has the partial's value, every
  other name has the value the state object gives it at that moment. For a plain partial
  value that is the previous state as it was at the call; for a function it is the state
  in the heap \<open>h1\<close> the function leaves, where the partial, the function's result, lives
  too; and for a function that leaves the state object's own properties as they were, it
  is again the previous state as it was at the call.
\<close>

theorem update_publishes_shallow_merge:
  "(update (Partial p) trace w = Inr w' \<longrightarrow>
      (\<exists>a. get w' = JRef a \<and>
         (\<forall>k. prop_get (own_props (objects w') (JRef a)) k =
                (case prop_get (own_props (objects w) p) k of
                   Some v \<Rightarrow> Some v
                 | None \<Rightarrow> prop_get (own_props (objects w) (get w)) k))))
   \<and> (update (Updater f) trace w = Inr w' \<and> f (objects w) (enabled w) (get w) = (h1, en, r) \<longrightarrow>
      (\<exists>a. get w' = JRef a \<and>
         (\<forall>k. prop_get (own_props (objects w') (JRef a)) k =
                (case prop_get (own_props h1 r) k of
                   Some v \<Rightarrow> Some v
                 | None \<Rightarrow> prop_get (own_props h1 (get w)) k))))
   \<and> (update (Updater f) trace w = Inr w' \<and> f (objects w) (enabled w) (get w) = (h1, en, r)
        \<and> own_props h1 (get w) = own_props (objects w) (get w) \<longrightarrow>
      (\<exists>a. get w' = JRef a \<and>
         (\<forall>k. prop_get (own_props (objects w') (JRef a)) k =
                (case prop_get (own_props h1 r) k of
                   Some v \<Rightarrow> Some v
                 | None \<Rightarrow> prop_get (own_props (objects w) (get w)) k))))"
proof -
  have partial_law: "\<exists>a. get w' = JRef a \<and>
         (\<forall>k. prop_get (own_props (objects w') (JRef a)) k =
                (case prop_get (own_props (objects w) p) k of
                   Some v \<Rightarrow> Some v
                 | None \<Rightarrow> prop_get (own_props (objects w) (get w)) k))"
    if run: "update (Partial p) trace w = Inr w'"
  proof -
    have act: "apply_action (Partial p) w (get w) = (p, w)"
      by (simp add: apply_action_def)
    from update_merge_law [OF run act] show ?thesis
      by metis
  qed
  have function_law: "\<exists>a. get w' = JRef a \<and>
         (\<forall>k. prop_get (own_props (objects w') (JRef a)) k =
                (case prop_get (own_props h1 r) k of
                   Some v \<Rightarrow> Some v
                 | None \<Rightarrow> prop_get (own_props h1 (get w)) k))"
    if run: "update (Updater f) trace w = Inr w'"
      and res: "f (objects w) (enabled w) (get w) = (h1, en, r)"
  proof -
    have act: "apply_action (Updater f) w (get w) = (r, w\<lparr>objects := h1, enabled := en\<rparr>)"
      by (simp add: apply_action_def res)
    have heap: "objects (w\<lparr>objects := h1, enabled := en\<rparr>) = h1"
      by simp
    from update_merge_law [OF run act, unfolded heap] show ?thesis
      by metis
  qed
  show ?thesis
  proof (intro conjI impI)
    assume "update (Partial p) trace w = Inr w'"
    then show "\<exists>a. get w' = JRef a \<and>
         (\<forall>k. prop_get (own_props (objects w') (JRef a)) k =
                (case prop_get (own_props (objects w) p) k of
                   Some v \<Rightarrow> Some v
                 | None \<Rightarrow> prop_get (own_props (objects w) (get w)) k))"
      by (rule partial_law)
  next
    assume "update (Updater f) trace w = Inr w' \<and> f (objects w) (enabled w) (get w) = (h1, en, r)"
    then show "\<exists>a. get w' = JRef a \<and>
         (\<forall>k. prop_get (own_props (objects w') (JRef a)) k =
                (case prop_get (own_props h1 r) k of
                   Some v \<Rightarrow> Some v
                 | None \<Rightarrow> prop_get (own_props h1 (get w)) k))"
      using function_law by blast
  next
    assume "update (Updater f) trace w = Inr w' \<and> f (objects w) (enabled w) (get w) = (h1, en, r)
        \<and> own_props h1 (get w) = own_props (objects w) (get w)"
    then have run: "update (Updater f) trace w = Inr w'"
      and res: "f (objects w) (enabled w) (get w) = (h1, en, r)"
      and kept: "own_props h1 (get w) = own_props (objects w) (get w)"
      by simp_all
    from function_law [OF run res, unfolded kept]
    show "\<exists>a. get w' = JRef a \<and>
         (\<forall>k. prop_get (own_props (objects w') (JRef a)) k =
                (case prop_get (own_props h1 r) k of
                   Some v \<Rightarrow> Some v
                 | None \<Rightarrow> prop_get (own_props (objects w) (get w)) k))" .
  qed
qed

theorem update_publishes_shallow_merge_witness:
  "update (Partial (JRef 1)) None (messages_store False) = Inr messages_set_once
   \<and> prop_get (own_props (objects messages_set_once) (get messages_set_once)) ''message''
       = Some (JStr ''world'')
   \<and> update (Updater delete_a) None (counter_store False) = Inr counter_without_a
   \<and> delete_a (objects (counter_store False)) (enabled (counter_store False))
        (get (counter_store False)) = ([Object [(''b'', JNum 2)], Object []], False, JRef 1)
   \<and> prop_get (own_props (objects counter_without_a) (get counter_without_a)) ''a'' = None
   \<and> prop_get (own_props (objects counter_without_a) (get counter_without_a)) ''b''
       = Some (JNum 2)
   \<and> update (Updater increment_b) (Some v8_trace) (counter_store True) = Inr counter_after
   \<and> increment_b (objects (counter_store True)) (enabled (counter_store True))
        (get (counter_store True))
       = ([Object [(''a'', JNum 1), (''b'', JNum 2)], Object [(''b'', JNum 3)]], True, JRef 1)
   \<and> own_props [Object [(''a'', JNum 1), (''b'', JNum 2)], Object [(''b'', JNum 3)]]
        (get (counter_store True))
       = own_props (objects (counter_store True)) (get (counter_store True))
   \<and> prop_get (own_props (objects counter_after) (get counter_after)) ''a'' = Some (JNum 1)
   \<and> prop_get (own_props (objects counter_after) (get counter_after)) ''b'' = Some (JNum 3)"
proof -
  let ?h_del = "[Object [(''b'', JNum 2)], Object []]"
  let ?h_inc = "[Object [(''a'', JNum 1), (''b'', JNum 2)], Object [(''b'', JNum 3)]]"
  have del: "delete_a (objects (counter_store False)) (enabled (counter_store False))
        (get (counter_store False)) = (?h_del, False, JRef 1)"
    by code_simp
  have inc: "increment_b (objects (counter_store True)) (enabled (counter_store True))
        (get (counter_store True)) = (?h_inc, True, JRef 1)"
    by code_simp
  have kept: "own_props ?h_inc (get (counter_store True))
      = own_props (objects (counter_store True)) (get (counter_store True))"
    by (simp add: counter_store_def get_def heap_get_def)
  from update_publishes_shallow_merge
    [of "JRef 1" None "messages_store False" messages_set_once, THEN conjunct1]
    messages_set_runs(1)
  obtain a where a: "get messages_set_once = JRef a"
    and set_law: "\<And>k. prop_get (own_props (objects messages_set_once) (JRef a)) k =
           (case prop_get (own_props (objects (messages_store False)) (JRef 1)) k of
              Some v \<Rightarrow> Some v
            | None \<Rightarrow> prop_get (own_props (objects (messages_store False))
                        (get (messages_store False))) k)"
    by blast
  from update_publishes_shallow_merge
    [where f = delete_a and trace = None and w = "counter_store False"
       and w' = counter_without_a and ?h1.0 = ?h_del and en = False and r = "JRef 1",
     THEN conjunct2, THEN conjunct1]
    counter_delete_run del
  obtain b where b: "get counter_without_a = JRef b"
    and delete_law: "\<And>k. prop_get (own_props (objects counter_without_a) (JRef b)) k =
           (case prop_get (own_props ?h_del (JRef 1)) k of
              Some v \<Rightarrow> Some v
            | None \<Rightarrow> prop_get (own_props ?h_del (get (counter_store False))) k)"
    by blast
  from update_publishes_shallow_merge
    [where f = increment_b and trace = "Some v8_trace" and w = "counter_store True"
       and w' = counter_after and ?h1.0 = ?h_inc and en = True and r = "JRef 1",
     THEN conjunct2, THEN conjunct2]
    counter_update_run inc kept
  obtain c where c: "get counter_after = JRef c"
    and update_law: "\<And>k. prop_get (own_props (objects counter_after) (JRef c)) k =
           (case prop_get (own_props ?h_inc (JRef 1)) k of
              Some v \<Rightarrow> Some v
            | None \<Rightarrow> prop_get (own_props (objects (counter_store True))
                        (get (counter_store True))) k)"
    by blast
  have "prop_get (own_props (objects (messages_store False)) (JRef 1)) ''message''
          = Some (JStr ''world'')"
    and "prop_get (own_props ?h_del (JRef 1)) ''a'' = None"
    and "prop_get (own_props ?h_del (get (counter_store False))) ''a'' = None"
    and "prop_get (own_props ?h_del (JRef 1)) ''b'' = None"
    and "prop_get (own_props ?h_del (get (counter_store False))) ''b'' = Some (JNum 2)"
    and "prop_get (own_props ?h_inc (JRef 1)) ''a'' = None"
    and "prop_get (own_props (objects (counter_store True)) (get (counter_store True))) ''a''
          = Some (JNum 1)"
    and "prop_get (own_props ?h_inc (JRef 1)) ''b'' = Some (JNum 3)"
    by (simp_all add: messages_store_def hello_world_def counter_store_def get_def heap_get_def
          prop_get_def)
  with set_law [of "''message''"] delete_law [of "''a''"] delete_law [of "''b''"]
    update_law [of "''a''"] update_law [of "''b''"]
    a [symmetric] b [symmetric] c [symmetric]
    messages_set_runs(1) counter_delete_run counter_update_run del inc kept
  show ?thesis
    by simp
qed

section \<open>Top-level keys\<close>

text \<open>
  Claim C9 as stated fails for \<^verbatim>\<open>update\<close> with a function that deletes a property of the
  state object it is handed: the counter's keys are \<^verbatim>\<open>a\<close> and \<^verbatim>\<open>b\<close>, and after
  \<^verbatim>\<open>update(prev => { delete prev.a; return {} })\<close> the published state has the key \<^verbatim>\<open>b\<close>
  alone.
\<close>

theorem updater_can_delete_key:
  "map fst (own_props (objects (counter_store False)) (get (counter_store False)))
     = [''a'', ''b'']
   \<and> update (Updater delete_a) None (counter_store False) = Inr counter_without_a
   \<and> map fst (own_props (objects counter_without_a) (get counter_without_a)) = [''b'']
   \<and> ''a'' \<in> prop_names (own_props (objects (counter_store False)) (get (counter_store False)))
   \<and> ''a'' \<notin> prop_names (own_props (objects counter_without_a) (get counter_without_a))"
  by code_simp

text \<open>
  Claim C9, amended. The spread that builds the next state removes no name. Whenever
  \<^verbatim>\<open>set\<close> publishes, and whenever \<open>merge\<close> is called, every property name of the previous
  state is a property name of the published state. Whenever \<^verbatim>\<open>update\<close> with a function
  publishes, every property name the state object has when the function has returned is
  a property name of the published state: a name is lost only where the function itself
  deleted it.
\<close>

theorem published_state_keeps_keys:
  "(update (Partial v) trace w = Inr w' \<longrightarrow>
      prop_names (own_props (objects w) (get w))
        \<subseteq> prop_names (own_props (objects w') (get w')))
   \<and> (update (Updater f) trace w = Inr w' \<and> f (objects w) (enabled w) (get w) = (h1, en, r) \<longrightarrow>
      prop_names (own_props h1 (get w))
        \<subseteq> prop_names (own_props (objects w') (get w')))
   \<and> prop_names (own_props (objects w) (get w))
        \<subseteq> prop_names (own_props (objects (merge p w)) (get (merge p w)))"
proof (intro conjI impI)
  assume run: "update (Partial v) trace w = Inr w'"
  have act: "apply_action (Partial v) w (get w) = (v, w)"
    by (simp add: apply_action_def)
  from update_props [OF run act]
  show "prop_names (own_props (objects w) (get w))
          \<subseteq> prop_names (own_props (objects w') (get w'))"
    by (simp add: prop_names_spread2)
next
  assume "update (Updater f) trace w = Inr w' \<and> f (objects w) (enabled w) (get w) = (h1, en, r)"
  then have run: "update (Updater f) trace w = Inr w'"
    and res: "f (objects w) (enabled w) (get w) = (h1, en, r)"
    by simp_all
  have act: "apply_action (Updater f) w (get w) = (r, w\<lparr>objects := h1, enabled := en\<rparr>)"
    by (simp add: apply_action_def res)
  from update_props [OF run act]
  show "prop_names (own_props h1 (get w))
          \<subseteq> prop_names (own_props (objects w') (get w'))"
    by (simp add: prop_names_spread2)
next
  show "prop_names (own_props (objects w) (get w))
          \<subseteq> prop_names (own_props (objects (merge p w)) (get (merge p w)))"
    by (simp add: merge_props prop_names_spread2)
qed

theorem published_state_keeps_keys_witness:
  "update (Partial (JRef 1)) None (messages_store False) = Inr messages_set_once
   \<and> prop_names (own_props (objects (messages_store False)) (get (messages_store False)))
        = {''message''}
   \<and> {''message''} \<subseteq> prop_names (own_props (objects messages_set_once) (get messages_set_once))
   \<and> update (Updater increment_b) (Some v8_trace) (counter_store True) = Inr counter_after
   \<and> increment_b (objects (counter_store True)) (enabled (counter_store True))
        (get (counter_store True))
       = ([Object [(''a'', JNum 1), (''b'', JNum 2)], Object [(''b'', JNum 3)]], True, JRef 1)
   \<and> prop_names (own_props [Object [(''a'', JNum 1), (''b'', JNum 2)], Object [(''b'', JNum 3)]]
                   (get (counter_store True))) = {''a'', ''b''}
   \<and> {''a'', ''b''} \<subseteq> prop_names (own_props (objects counter_after) (get counter_after))
   \<and> {''a'', ''b''} \<subseteq> prop_names (own_props (objects (merge (JNum 7) (counter_store True)))
                                  (get (merge (JNum 7) (counter_store True))))"
proof -
  let ?h_inc = "[Object [(''a'', JNum 1), (''b'', JNum 2)], Object [(''b'', JNum 3)]]"
  have inc: "increment_b (objects (counter_store True)) (enabled (counter_store True))
        (get (counter_store True)) = (?h_inc, True, JRef 1)"
    by code_simp
  have names: "prop_names (own_props (objects (messages_store False))
                 (get (messages_store False))) = {''message''}"
    "prop_names (own_props ?h_inc (get (counter_store True))) = {''a'', ''b''}"
    "prop_names (own_props (objects (counter_store True)) (get (counter_store True)))
      = {''a'', ''b''}"
    by (simp_all add: messages_store_def hello_world_def counter_store_def get_def heap_get_def
          prop_names_def)
  from published_state_keeps_keys
      [where v = "JRef 1" and trace = None and w = "messages_store False"
         and w' = messages_set_once, THEN conjunct1]
    published_state_keeps_keys
      [where f = increment_b and trace = "Some v8_trace" and w = "counter_store True"
         and w' = counter_after and ?h1.0 = ?h_inc and en = True and r = "JRef 1"
         and p = "JNum 7", THEN conjunct2]
    names messages_set_runs(1) counter_update_run inc
  show ?thesis
    by simp
qed

section \<open>The merge decorator is independent of logging\<close>

text \<open>
  Claim C6. \<open>merge\<close> hands the base container's \<open>set\<close> a fresh object holding the current
  state's properties overlaid with the partial's, and leaves the console and the flag as
  they are, whatever the flag says.
\<close>

theorem merge_publishes_without_logging:
  "merge p w = writable_set (JRef (length (objects w)))
       (w\<lparr>objects := objects w @ [Object (spread (objects w) [get w, p])]\<rparr>)
   \<and> console (merge p w) = console w
   \<and> enabled (merge p w) = enabled w
   \<and> (\<forall>k. prop_get (own_props (objects (merge p w)) (get (merge p w))) k =
            (case prop_get (own_props (objects w) p) k of
               Some v \<Rightarrow> Some v
             | None \<Rightarrow> prop_get (own_props (objects w) (get w)) k))"
  unfolding get_def
  by (simp add: merge_shape [unfolded get_def] writable_set_def heap_get_alloc_new prop_get_spread2)

section \<open>Merging the same partial twice\<close>

lemma enumerates_before_asym: "enumerates_before a b \<Longrightarrow> \<not> enumerates_before b a"
  by (auto simp: enumerates_before_def split: option.splits)

lemma enumerates_before_trans:
  "enumerates_before a b \<Longrightarrow> enumerates_before b c \<Longrightarrow> enumerates_before a c"
  by (auto simp: enumerates_before_def split: option.splits)

lemma ordered_names_append:
  "ordered_names (xs @ ys) \<longleftrightarrow>
     ordered_names xs \<and> ordered_names ys \<and> (\<forall>x \<in> set xs. \<forall>y \<in> set ys. \<not> enumerates_before y x)"
  by (induction xs) auto

lemma map_fst_overwrite: "map fst (map (\<lambda>p. if fst p = fst kv then kv else p) ps) = map fst ps"
  by (induction ps) auto

lemma distinct_insert_prop:
  "fst kv \<notin> fst ` set ps \<Longrightarrow> distinct (map fst ps) \<Longrightarrow> distinct (map fst (insert_prop kv ps))"
proof (induction ps)
  case Nil
  show ?case by simp
next
  case (Cons p ps)
  then have "fst p \<notin> fst ` set (insert_prop kv ps)"
    by (auto simp: set_insert_prop)
  with Cons show ?case
    by auto
qed

lemma ordered_insert_prop:
  "ordered_names (map fst ps) \<Longrightarrow> ordered_names (map fst (insert_prop kv ps))"
proof (induction ps)
  case Nil
  show ?case by simp
next
  case (Cons p ps)
  show ?case
  proof (cases "enumerates_before (fst kv) (fst p)")
    case True
    have "\<not> enumerates_before k' (fst kv)" if "k' \<in> set (map fst (p # ps))" for k'
    proof
      assume "enumerates_before k' (fst kv)"
      from this True have before: "enumerates_before k' (fst p)"
        by (rule enumerates_before_trans)
      from that Cons.prems before show False
        by (auto dest: enumerates_before_asym)
    qed
    with True Cons.prems show ?thesis
      by auto
  next
    case False
    with Cons show ?thesis
      by (auto simp: set_insert_prop)
  qed
qed

lemma normal_define_prop:
  assumes "normal ps"
  shows "normal (define_prop kv ps)"
proof (cases "fst kv \<in> fst ` set ps")
  case True
  then have "map fst (define_prop kv ps) = map fst ps"
    unfolding define_prop_def by (simp only: if_True map_fst_overwrite)
  with assms show ?thesis
    unfolding normal_def by (simp only:)
next
  case False
  then have "define_prop kv ps = insert_prop kv ps"
    by (simp add: define_prop_def)
  with assms False show ?thesis
    unfolding normal_def by (simp only: distinct_insert_prop ordered_insert_prop simp_thms)
qed

lemma normal_fold_define_prop: "normal ps \<Longrightarrow> normal (fold define_prop qs ps)"
  by (induction qs arbitrary: ps) (simp_all add: normal_define_prop)

lemma normal_spread: "normal (spread h srcs)"
proof -
  have "normal ps \<Longrightarrow> normal (fold (copy_props h) srcs ps)" for ps
    by (induction srcs arbitrary: ps) (simp_all add: copy_props_def normal_fold_define_prop)
  then show ?thesis
    by (simp add: spread_def normal_def)
qed

lemma insert_prop_last:
  "\<forall>p \<in> set ps. \<not> enumerates_before (fst kv) (fst p) \<Longrightarrow> insert_prop kv ps = ps @ [kv]"
  by (induction ps) auto

lemma rebuild_normal:
  "distinct (map fst (acc @ ps)) \<Longrightarrow> ordered_names (map fst (acc @ ps)) \<Longrightarrow>
     fold define_prop ps acc = acc @ ps"
proof (induction ps arbitrary: acc)
  case Nil
  show ?case by simp
next
  case (Cons kv ps)
  from Cons.prems(1) have new: "fst kv \<notin> fst ` set acc"
    by auto
  from Cons.prems(2) have "\<forall>p \<in> set acc. \<not> enumerates_before (fst kv) (fst p)"
    by (auto simp: ordered_names_append)
  then have "define_prop kv acc = acc @ [kv]"
    using new by (simp add: define_prop_def insert_prop_last)
  moreover have "fold define_prop ps (acc @ [kv]) = (acc @ [kv]) @ ps"
    using Cons.prems by (intro Cons.IH) simp_all
  ultimately show ?case
    by simp
qed

lemma copy_of_normal: "normal ps \<Longrightarrow> fold define_prop ps [] = ps"
  using rebuild_normal [of "[]" ps] by (simp add: normal_def)

lemma fold_overwrites:
  "prop_names qs \<subseteq> prop_names ps \<Longrightarrow> fold define_prop qs ps = map (settle qs) ps"
proof (induction qs arbitrary: ps)
  case Nil
  show ?case by (simp add: settle_def prop_get_Nil)
next
  case (Cons kv qs)
  define f where "f = (\<lambda>p :: string \<times> jsval. if fst p = fst kv then kv else p)"
  from Cons.prems have here: "fst kv \<in> fst ` set ps" and rest: "prop_names qs \<subseteq> prop_names ps"
    by (auto simp: prop_names_def)
  have "map fst (map f ps) = map fst ps"
    unfolding f_def by (rule map_fst_overwrite)
  then have "set (map fst (map f ps)) = set (map fst ps)"
    by (simp only:)
  then have names: "prop_names (map f ps) = prop_names ps"
    by (simp only: prop_names_def set_map)
  have step: "settle qs (f p) = settle (kv # qs) p" for p
  proof (cases "fst p = fst kv")
    case True
    then show ?thesis
      unfolding f_def by (cases "prop_get qs (fst kv)") (simp_all add: settle_def prop_get_Cons)
  next
    case False
    then show ?thesis
      unfolding f_def by (cases "prop_get qs (fst p)") (simp_all add: settle_def prop_get_Cons)
  qed
  have "define_prop kv ps = map f ps"
    using here unfolding f_def by (simp add: define_prop_def)
  then have "fold define_prop (kv # qs) ps = fold define_prop qs (map f ps)"
    by simp
  also have "\<dots> = map (settle qs) (map f ps)"
    using rest names by (intro Cons.IH) (simp only:)
  also have "\<dots> = map (\<lambda>p. settle qs (f p)) ps"
    by (simp add: comp_def)
  also have "\<dots> = map (settle (kv # qs)) ps"
    by (simp only: step)
  finally show ?case .
qed

lemma untouched_entry:
  "p \<in> set (fold define_prop qs ps) \<Longrightarrow> fst p \<notin> prop_names qs \<Longrightarrow> p \<in> set ps"
proof (induction qs arbitrary: ps)
  case Nil
  then show ?case by simp
next
  case (Cons kv qs)
  from Cons.prems(2) have "fst p \<noteq> fst kv" "fst p \<notin> prop_names qs"
    by (auto simp: prop_names_def)
  with Cons.IH [of "define_prop kv ps"] Cons.prems(1) have "p \<in> set (define_prop kv ps)"
    by simp
  with \<open>fst p \<noteq> fst kv\<close> show ?case
    by (auto simp: define_prop_def set_insert_prop split: if_splits)
qed

lemma defined_entry: "p \<in> set (define_prop kv ps) \<Longrightarrow> fst p = fst kv \<Longrightarrow> p = kv"
  by (auto simp: define_prop_def set_insert_prop image_iff split: if_splits)

lemma settled_entries: "p \<in> set (fold define_prop qs ps) \<Longrightarrow> settle qs p = p"
proof (induction qs arbitrary: ps)
  case Nil
  show ?case by (simp add: settle_def prop_get_Nil)
next
  case (Cons kv qs)
  obtain k x where p: "p = (k, x)"
    by (cases p)
  from Cons.prems have inside: "p \<in> set (fold define_prop qs (define_prop kv ps))"
    by simp
  then have "settle qs p = p"
    by (rule Cons.IH)
  then have IH: "prop_get qs k = None \<or> prop_get qs k = Some x"
    unfolding p settle_def by (cases "prop_get qs k") simp_all
  show ?case
  proof (cases "prop_get qs k")
    case (Some v)
    with IH have "prop_get (kv # qs) k = Some x"
      by (simp add: prop_get_Cons)
    then show ?thesis
      unfolding p settle_def by simp
  next
    case None
    then have "fst p \<notin> prop_names qs"
      by (simp add: prop_get_None_iff p)
    with inside have "p \<in> set (define_prop kv ps)"
      by (rule untouched_entry)
    then have "k = fst kv \<Longrightarrow> snd kv = x"
      using defined_entry [of p kv ps] unfolding p by (metis fst_conv snd_conv)
    then have "prop_get (kv # qs) k = None \<or> prop_get (kv # qs) k = Some x"
      using None by (cases "k = fst kv") (simp_all add: prop_get_Cons)
    then show ?thesis
      unfolding p settle_def by auto
  qed
qed

lemma fold_define_prop_twice:
  "fold define_prop qs (fold define_prop qs ps) = fold define_prop qs ps"
proof -
  have "prop_names qs \<subseteq> prop_names (fold define_prop qs ps)"
    by (simp add: prop_names_fold_define_prop)
  then have "fold define_prop qs (fold define_prop qs ps)
      = map (settle qs) (fold define_prop qs ps)"
    by (rule fold_overwrites)
  also have "\<dots> = fold define_prop qs ps"
    by (rule map_idI) (rule settled_entries)
  finally show ?thesis .
qed

lemma spread_again:
  assumes "valid_in h p"
  shows "spread (h @ [Object (spread h [prev, p])]) [JRef (length h), p] = spread h [prev, p]"
proof -
  let ?once = "spread h [prev, p]"
  have once: "?once = fold define_prop (own_props h p) (fold define_prop (own_props h prev) [])"
    by (simp add: spread_def copy_props_def)
  have "spread (h @ [Object ?once]) [JRef (length h), p]
      = fold define_prop (own_props h p) (fold define_prop ?once [])"
    by (simp add: spread_def copy_props_def heap_get_alloc_new own_props_append [OF assms])
  also have "\<dots> = fold define_prop (own_props h p) ?once"
    by (simp add: copy_of_normal [OF normal_spread])
  also have "\<dots> = ?once"
    unfolding once by (rule fold_define_prop_twice)
  finally show ?thesis .
qed

text \<open>
  Claim C8. Merging a partial into the result of merging it is merging it once: after a
  second \<open>merge\<close> of the same partial the container holds an object with the same
  properties, in the same order, as after the first; and so it is for two successive
  \<^verbatim>\<open>set\<close> calls through the orchestrator, whenever both publish. (The partial is a value of
  the heap the first call starts from.)
\<close>

theorem merge_twice_is_merge_once:
  assumes "valid_in (objects w) p"
  shows "own_props (objects (merge p (merge p w))) (get (merge p (merge p w)))
           = own_props (objects (merge p w)) (get (merge p w))
       \<and> (update (Partial p) trace w = Inr w1 \<and> update (Partial p) trace' w1 = Inr w2
            \<longrightarrow> own_props (objects w2) (get w2) = own_props (objects w1) (get w1))"
proof (intro conjI impI)
  let ?h = "objects w"
  let ?once = "spread ?h [get w, p]"
  have first: "objects (merge p w) = ?h @ [Object ?once]" "get (merge p w) = JRef (length ?h)"
    by (simp_all add: merge_shape writable_set_def get_def)
  have "own_props (objects (merge p (merge p w))) (get (merge p (merge p w)))
      = spread (objects (merge p w)) [get (merge p w), p]"
    by (rule merge_props)
  also have "\<dots> = spread (?h @ [Object ?once]) [JRef (length ?h), p]"
    by (simp only: first)
  also have "\<dots> = ?once"
    by (rule spread_again [OF assms])
  also have "\<dots> = own_props (objects (merge p w)) (get (merge p w))"
    by (rule merge_props [symmetric])
  finally show "own_props (objects (merge p (merge p w))) (get (merge p (merge p w)))
           = own_props (objects (merge p w)) (get (merge p w))" .
next
  let ?h = "objects w"
  let ?once = "spread ?h [get w, p]"
  assume runs: "update (Partial p) trace w = Inr w1 \<and> update (Partial p) trace' w1 = Inr w2"
  have act: "apply_action (Partial p) w (get w) = (p, w)"
    "apply_action (Partial p) w1 (get w1) = (p, w1)"
    by (simp_all add: apply_action_def)
  from update_Inr_shape [OF runs [THEN conjunct1] act(1)]
  have w1: "get w1 = JRef (length ?h)" "objects w1 = ?h @ [Object ?once]"
    by (simp_all add: get_def)
  have "own_props (objects w2) (get w2) = spread (objects w1) [get w1, p]"
    by (rule update_props [OF runs [THEN conjunct2] act(2)])
  also have "\<dots> = spread (?h @ [Object ?once]) [JRef (length ?h), p]"
    by (simp only: w1)
  also have "\<dots> = ?once"
    by (rule spread_again [OF assms])
  also have "\<dots> = own_props (objects w1) (get w1)"
    by (rule update_props [OF runs [THEN conjunct1] act(1), symmetric])
  finally show "own_props (objects w2) (get w2) = own_props (objects w1) (get w1)" .
qed

theorem merge_twice_is_merge_once_witness:
  "valid_in (objects (messages_store False)) (JRef 1)
   \<and> own_props (objects (merge (JRef 1) (messages_store False)))
        (get (merge (JRef 1) (messages_store False))) = [(''message'', JStr ''world'')]
   \<and> own_props (objects (merge (JRef 1) (merge (JRef 1) (messages_store False))))
        (get (merge (JRef 1) (merge (JRef 1) (messages_store False))))
        = [(''message'', JStr ''world'')]
   \<and> update (Partial (JRef 1)) None (messages_store False) = Inr messages_set_once
   \<and> update (Partial (JRef 1)) None messages_set_once = Inr messages_set_twice
   \<and> own_props (objects messages_set_twice) (get messages_set_twice)
        = own_props (objects messages_set_once) (get messages_set_once)"
proof -
  have valid: "valid_in (objects (messages_store False)) (JRef 1)"
    by (simp add: valid_in_def messages_store_def hello_world_def)
  have once: "own_props (objects (merge (JRef 1) (messages_store False)))
        (get (merge (JRef 1) (messages_store False))) = [(''message'', JStr ''world'')]"
    by code_simp
  have run1: "update (Partial (JRef 1)) None (messages_store False) = Inr messages_set_once"
    and run2: "update (Partial (JRef 1)) None messages_set_once = Inr messages_set_twice"
    by code_simp+
  from merge_twice_is_merge_once [OF valid, of None messages_set_once None messages_set_twice]
    valid once run1 run2
  show ?thesis
    by simp
qed

section \<open>Failures of the logging path\<close>

lemma v8_trace_frames: "4 < length (js_split ''at '' v8_trace)"
  by code_simp

lemma v8_trace_caller:
  "js_elem (js_split '' '' (js_split ''at '' v8_trace ! 4)) 0 = JStr ''HTMLButtonElement.click''"
  "js_elem (js_split '' '' (js_split ''at '' v8_trace ! 4)) 1 = JStr ''(App.svelte:21:5)''"
  by code_simp+

lemma v8_trace_info:
  "stack_info (Some v8_trace) = Inr (JStr ''HTMLButtonElement.click'', JStr ''(App.svelte:21:5)'')"
  by code_simp

lemma snapshot_hello:
  "snapshot hello_world (JRef 0) = Inr (TObj [(''message'', TStr ''hello'')])"
  by code_simp

lemma spread_hello_world:
  "spread hello_world [JRef 0, JRef 1] = [(''message'', JStr ''world'')]"
  by code_simp

text \<open>
  Claim C2 asks that a failure of the logging path never aborts the update. The code does
  abort. With logging on and a stack text that has no fifth \<^verbatim>\<open>at\<close> entry, line 83 raises a
  TypeError after the next state was computed and before line 88 publishes it: the
  container still holds \<^verbatim>\<open>{message: 'hello'}\<close>. With logging on and a container created
  without a value, line 73 raises a SyntaxError before anything else happens.
\<close>

theorem logging_failure_aborts_update:
  "update (Partial (JRef 1)) (Some spidermonkey_trace) (messages_store True) =
     Inl (TypeError,
          \<lparr>objects = hello_world @ [Object [(''message'', JStr ''world'')]], enabled = True,
           console = [], current = JRef 0\<rparr>)
   \<and> update (Partial (JRef 1)) (Some v8_trace) (empty_store True) =
       Inl (SyntaxError, empty_store True)"
  by code_simp

section \<open>The flag and the state transition\<close>






section \<open>set and update share the orchestrator\<close>

text \<open>
  \<^verbatim>\<open>set(value)\<close> is the orchestrator run on the value as an action that is not a
  function, and it does what \<^verbatim>\<open>update\<close> does with the function that returns the value
  whatever the state. From \<^verbatim>\<open>{message: 'hello'}\<close>, a run of \<^verbatim>\<open>set({message: 'world'})\<close>
  either publishes an object with exactly the property \<^verbatim>\<open>message: 'world'\<close>, or it is
  aborted by line 83 with logging on and leaves \<^verbatim>\<open>{message: 'hello'}\<close> in place.
\<close>

lemma set_routes_through_update:
  "loggable_set v trace w = update (Partial v) trace w"
  "loggable_set v trace w = loggable_update (\<lambda>h en prev. (h, en, v)) trace w"
proof -
  show "loggable_set v trace w = update (Partial v) trace w"
    by (simp add: loggable_set_def)
  have "apply_action (Updater (\<lambda>h en prev. (h, en, v))) w = apply_action (Partial v) w"
    by (rule ext) (simp add: apply_action_def)
  then have "loggable_update (\<lambda>h en prev. (h, en, v)) trace w = update (Partial v) trace w"
    unfolding loggable_update_def update_def by (simp only:)
  then show "loggable_set v trace w = loggable_update (\<lambda>h en prev. (h, en, v)) trace w"
    by (simp add: loggable_set_def)
qed

lemma set_example_runs:
  "case loggable_set (JRef 1) trace (messages_store en) of
     Inr w' \<Rightarrow> own_props (objects w') (get w') = [(''message'', JStr ''world'')]
   | Inl (e, w') \<Rightarrow> en \<and> stack_info trace = Inl e \<and> get w' = JRef 0"
  unfolding loggable_set_def
  using spread_hello_world
  by (auto simp: update_def get_def messages_store_def snapshot_hello apply_action_def Let_def
        alloc_def writable_set_def heap_get_alloc_new
        split: sum.splits prod.splits)

text \<open>
  Claim C5 says that from \<^verbatim>\<open>{message: 'hello'}\<close> the call \<^verbatim>\<open>set({message: 'world'})\<close>
  publishes exactly \<^verbatim>\<open>{message: 'world'}\<close>. The call is routed through the orchestrator
  as the claim says, and there, with logging on (as it is when the module has loaded, line
  22) and a stack text without a fifth \<^verbatim>\<open>at\<close> entry, line 83 raises the TypeError of
  claim C2 before line 88: \<^verbatim>\<open>set\<close> returns by that exception, nothing is published, and
  the container still holds \<^verbatim>\<open>{message: 'hello'}\<close>. The same call with logging off
  publishes \<^verbatim>\<open>{message: 'world'}\<close>.
\<close>

theorem set_example_can_publish_nothing:
  "loggable_set (JRef 1) (Some spidermonkey_trace) (messages_store True) =
     Inl (TypeError,
          \<lparr>objects = hello_world @ [Object [(''message'', JStr ''world'')]], enabled = True,
           console = [], current = JRef 0\<rparr>)
   \<and> own_props hello_world (JRef 1) = [(''message'', JStr ''world'')]
   \<and> own_props (hello_world @ [Object [(''message'', JStr ''world'')]]) (JRef 0)
       = [(''message'', JStr ''hello'')]
   \<and> loggable_set (JRef 1) (Some spidermonkey_trace) (messages_store False)
       = Inr messages_set_once
   \<and> own_props (objects messages_set_once) (get messages_set_once)
       = [(''message'', JStr ''world'')]"
  by code_simp

section \<open>The serializer never lets a cycle through\<close>

lemma indexOf_None_iff: "indexOf xs x = None \<longleftrightarrow> x \<notin> set xs"
  by (induction xs) auto

lemma indexOf_nth: "distinct xs \<Longrightarrow> i < length xs \<Longrightarrow> indexOf xs (xs ! i) = Some i"
proof (induction xs arbitrary: i)
  case Nil
  then show ?case by simp
next
  case (Cons y ys)
  then show ?case
    by (cases i) (auto simp: nth_mem)
qed

lemma indexOf_append: "x \<in> set xs \<Longrightarrow> indexOf (xs @ ys) x = indexOf xs x"
  by (induction xs) auto

lemma distinct_map_JRef: "distinct (map JRef stk) = distinct stk"
  by (simp add: distinct_map inj_on_def)

lemma serializer_tracks:
  assumes "tracks stk kp rs"
  shows "serializer None None rs (JRef (last stk)) key v
           = (if indexOf (map JRef stk) v \<noteq> None
              then default_cycleReplacer \<lparr>stack = map JRef stk, keys = kp @ [key]\<rparr>
                     (JRef (last stk)) key v
              else v,
              \<lparr>stack = map JRef stk, keys = kp @ [key]\<rparr>)"
proof -
  from assms have d: "distinct stk" and ne: "stk \<noteq> []" and len: "Suc (length kp) = length stk"
    and sne: "stack rs \<noteq> []"
    by (simp_all add: tracks_def)
  from assms consider
      (first) "stack rs = map JRef (butlast stk)" "keys rs = kp"
    | (later) "prefix (map JRef stk) (stack rs)" "prefix kp (keys rs)"
    by (auto simp: tracks_def)
  then show ?thesis
  proof cases
    case first
    from d ne have "last stk \<notin> set (butlast stk)"
      by (metis append_butlast_last_id distinct_append distinct.simps(2) disjoint_iff list.set_intros(1) not_distinct_conv_prefix)
    then have "indexOf (stack rs) (JRef (last stk)) = None"
      by (auto simp: indexOf_None_iff first)
    moreover have "map JRef (butlast stk) @ [JRef (last stk)] = map JRef stk"
      using ne by (metis append_butlast_last_id list.simps(8,9) map_append)
    moreover from sne first have "Suc 0 < length stk"
      by (cases stk) (auto split: if_splits)
    ultimately show ?thesis
      using sne first by (simp add: serializer_def Let_def split: prod.splits)
  next
    case later
    then obtain more morek where more: "stack rs = map JRef stk @ more" "keys rs = kp @ morek"
      by (auto simp: prefix_def)
    have "indexOf (map JRef stk) (map JRef stk ! (length stk - 1)) = Some (length stk - 1)"
      using d ne by (intro indexOf_nth) (simp_all add: distinct_map_JRef)
    moreover have "map JRef stk ! (length stk - 1) = JRef (last stk)"
      using ne by (simp add: last_conv_nth)
    ultimately have "indexOf (stack rs) (JRef (last stk)) = Some (length stk - 1)"
      using ne by (simp add: more indexOf_append)
    moreover have "length stk - 1 = length kp" using len by simp
    ultimately show ?thesis
      using sne ne len by (simp add: serializer_def Let_def more split: prod.splits)
  qed
qed


lemma serializer_passes_new:
  assumes "tracks stk kp rs" and "v \<notin> JRef ` set stk"
  shows "serializer None None rs (JRef (last stk)) key v
           = (v, \<lparr>stack = map JRef stk, keys = kp @ [key]\<rparr>)"
  using assms(2) by (simp add: serializer_tracks [OF assms(1)] indexOf_None_iff)

lemma serializer_replaces_ancestor:
  assumes "tracks stk kp rs" and "i < length stk"
  shows "serializer None None rs (JRef (last stk)) key (JRef (stk ! i))
           = (JStr (circular_placeholder (take i kp)),
              \<lparr>stack = map JRef stk, keys = kp @ [key]\<rparr>)"
proof -
  from assms have d: "distinct stk" and len: "Suc (length kp) = length stk"
    by (simp_all add: tracks_def)
  have idx: "indexOf (map JRef stk) (JRef (stk ! i)) = Some i"
    using indexOf_nth [of "map JRef stk" i] d assms(2) by (simp add: distinct_map_JRef)
  from assms(2) have ne: "0 < length stk"
    by (cases stk) simp_all
  then have "js_nth (map JRef stk) 0 = JRef (stk ! 0)"
    by (simp add: js_nth_def)
  moreover have "stk ! 0 = stk ! i \<longleftrightarrow> i = 0"
    using nth_eq_iff_index_eq [OF d ne assms(2)] by auto
  ultimately have first: "js_nth (map JRef stk) 0 = JRef (stk ! i) \<longleftrightarrow> i = 0"
    by simp
  have "default_cycleReplacer \<lparr>stack = map JRef stk, keys = kp @ [key]\<rparr>
          (JRef (last stk)) key (JRef (stk ! i)) = JStr (circular_placeholder (take i kp))"
  proof (cases "i = 0")
    case True
    then show ?thesis
      using first by (simp add: default_cycleReplacer_def circular_placeholder_def)
  next
    case False
    with assms(2) len have "take i kp \<noteq> []" "i \<le> length kp"
      by auto
    then show ?thesis
      using first False
      by (simp add: default_cycleReplacer_def circular_placeholder_def idx slice_from_start_def)
  qed
  then show ?thesis
    by (simp add: serializer_tracks [OF assms(1)] idx)
qed

lemma tracks_after_call:
  "tracks stk kp s \<Longrightarrow> tracks stk kp \<lparr>stack = map JRef stk, keys = kp @ [key]\<rparr>"
  by (auto simp: tracks_def)

lemma tracks_push:
  "tracks stk kp s \<Longrightarrow> a \<notin> set stk \<Longrightarrow>
     tracks (stk @ [a]) (kp @ [key]) \<lparr>stack = map JRef stk, keys = kp @ [key]\<rparr>"
  by (auto simp: tracks_def)

lemma tracks_pop:
  assumes "tracks (stk @ [a]) (kp @ [key]) s2" and "stk \<noteq> []"
  shows "tracks stk kp s2"
proof -
  from assms(1) have "prefix (map JRef stk) (stack s2) \<and> prefix kp (keys s2)"
    by (auto simp: tracks_def prefix_def)
  with assms show ?thesis
    by (auto simp: tracks_def)
qed

lemma serialize_under_tracks:
  "(rep = serializer None None \<longrightarrow> holder = JRef (last stk) \<longrightarrow>
      (\<forall>kp. tracks stk kp s \<longrightarrow>
         (\<exists>j s'. ser_prop rep h stk s holder key v0 = Inr (j, s') \<and> tracks stk kp s')))"
  "(rep = serializer None None \<longrightarrow> holder = JRef (last stk) \<longrightarrow>
      (\<forall>kp. tracks stk kp s \<longrightarrow>
         (\<exists>ms s'. ser_members rep h stk s holder ps = Inr (ms, s') \<and> tracks stk kp s'
             \<and> map fst ms = map fst ps)))"
proof (induction rep h stk s holder key v0 and rep h stk s holder ps
    rule: ser_prop_ser_members.induct)
  case (1 rep h stk s holder key v0)
  show ?case
  proof (intro impI allI)
    fix kp
    assume rep: "rep = serializer None None" and holder: "holder = JRef (last stk)"
      and tr: "tracks stk kp s"
    define s1 where "s1 = \<lparr>stack = map JRef stk, keys = kp @ [key]\<rparr>"
    have tr1: "tracks stk kp s1"
      unfolding s1_def by (rule tracks_after_call [OF tr])
    show "\<exists>j s'. ser_prop rep h stk s holder key v0 = Inr (j, s') \<and> tracks stk kp s'"
    proof (cases "v0 \<in> JRef ` set stk")
      case True
      then obtain i where i: "i < length stk" "v0 = JRef (stk ! i)"
        by (auto simp: in_set_conv_nth)
      have "rep s holder key v0 = (JStr (circular_placeholder (take i kp)), s1)"
        unfolding rep holder i(2) s1_def by (rule serializer_replaces_ancestor [OF tr i(1)])
      then have "ser_prop rep h stk s holder key v0
          = Inr (Some (TStr (circular_placeholder (take i kp))), s1)"
        by (simp add: ser_prop.simps)
      with tr1 show ?thesis by blast
    next
      case False
      have call: "rep s holder key v0 = (v0, s1)"
        unfolding rep holder s1_def by (rule serializer_passes_new [OF tr False])
      show ?thesis
      proof (cases v0)
        case (JRef a)
        with False have new: "a \<notin> set stk"
          by auto
        from tr have ne: "stk \<noteq> []"
          by (simp add: tracks_def)
        have "tracks (stk @ [a]) (kp @ [key]) s1"
          unfolding s1_def by (rule tracks_push [OF tr new])
        with "1.IH" [OF call [symmetric] JRef new] rep
        obtain ms s2 where ms:
          "ser_members rep h (stk @ [a]) s1 (JRef a) (own_props h (JRef a)) = Inr (ms, s2)"
          "tracks (stk @ [a]) (kp @ [key]) s2"
          by auto
        from ms(1) call JRef new have "ser_prop rep h stk s holder key v0
            = Inr (Some (assemble (heap_get h a) ms), s2)"
          by (simp add: ser_prop.simps)
        moreover have "tracks stk kp s2"
          by (rule tracks_pop [OF ms(2) ne])
        ultimately show ?thesis by blast
      qed (use call tr1 in \<open>simp_all add: ser_prop.simps\<close>)
    qed
  qed
next
  case (2 rep h stk s holder)
  show ?case by simp
next
  case (3 rep h stk s holder p ps)
  show ?case
  proof (intro impI allI)
    fix kp
    assume rep: "rep = serializer None None" and holder: "holder = JRef (last stk)"
      and tr: "tracks stk kp s"
    from "3.IH"(1) rep holder tr obtain j s1 where
      one: "ser_prop rep h stk s holder (fst p) (snd p) = Inr (j, s1)" and tr1: "tracks stk kp s1"
      by blast
    from "3.IH"(2) [OF one refl] rep holder tr1 obtain ms s2 where
      rest: "ser_members rep h stk s1 holder ps = Inr (ms, s2)" and tr2: "tracks stk kp s2"
      and names: "map fst ms = map fst ps"
      by blast
    from one rest have "ser_members rep h stk s holder (p # ps) = Inr ((fst p, j) # ms, s2)"
      by simp
    with tr2 names
    show "\<exists>ms s'. ser_members rep h stk s holder (p # ps) = Inr (ms, s') \<and> tracks stk kp s'
             \<and> map fst ms = map fst (p # ps)"
      by simp
  qed
qed

lemma serializer_first_call:
  "serializer None None serializer_init holder key v = (v, \<lparr>stack = [v], keys = []\<rparr>)"
  by (simp add: serializer_def serializer_init_def)

lemma tracks_root: "tracks [a] [] \<lparr>stack = [JRef a], keys = []\<rparr>"
  by (simp add: tracks_def)

lemma members_total:
  assumes "tracks stk kp s"
  shows "\<exists>ms s'. ser_members (serializer None None) h stk s (JRef (last stk)) ps = Inr (ms, s')
           \<and> tracks stk kp s' \<and> map fst ms = map fst ps"
  using serialize_under_tracks(2) [of "serializer None None" "JRef (last stk)" stk s h ps] assms
  by blast

lemma prop_total:
  assumes "tracks stk kp s"
  shows "\<exists>j s'. ser_prop (serializer None None) h stk s (JRef (last stk)) key v = Inr (j, s')
           \<and> tracks stk kp s'"
  using serialize_under_tracks(1) [of "serializer None None" "JRef (last stk)" stk s h key v] assms
  by blast

lemma stringify_root_object:
  "\<exists>ms s'. ser_members (serializer None None) h [a] \<lparr>stack = [JRef a], keys = []\<rparr> (JRef a)
              (own_props h (JRef a)) = Inr (ms, s')
      \<and> JSON_stringify h (JRef a) (serializer None None) serializer_init
          = Inr (Some (assemble (heap_get h a) ms))"
proof -
  from members_total [OF tracks_root, of h a "own_props h (JRef a)"]
  obtain ms s' where ms: "ser_members (serializer None None) h [a] \<lparr>stack = [JRef a], keys = []\<rparr>
      (JRef a) (own_props h (JRef a)) = Inr (ms, s')"
    by auto
  then have "JSON_stringify h (JRef a) (serializer None None) serializer_init
      = Inr (Some (assemble (heap_get h a) ms))"
    by (simp add: JSON_stringify_def ser_prop.simps serializer_first_call)
  with ms show ?thesis by blast
qed

lemma stringify_never_throws:
  "\<exists>text. JSON_stringify h v (serializer None None) serializer_init = Inr text"
proof (cases v)
  case (JRef a)
  with stringify_root_object [of h a] show ?thesis by auto
qed (simp_all add: JSON_stringify_def ser_prop.simps serializer_first_call)

lemma stringify_undefined_iff:
  "JSON_stringify h v (serializer None None) serializer_init = Inr None \<longleftrightarrow> v = JUndefined"
proof (cases v)
  case (JRef a)
  with stringify_root_object [of h a] show ?thesis by auto
qed (simp_all add: JSON_stringify_def ser_prop.simps serializer_first_call)

lemma snapshot_fails_iff: "(\<exists>e. snapshot h v = Inl e) \<longleftrightarrow> v = JUndefined"
proof -
  from stringify_never_throws [of h v] obtain res where
    res: "JSON_stringify h v (serializer None None) serializer_init = Inr res"
    by blast
  with stringify_undefined_iff [of h v] show ?thesis
    by (cases res) (auto simp: snapshot_def JSON_parse_def)
qed

lemma ser_members_append:
  "ser_members rep h stk s holder (xs @ ys) =
     (case ser_members rep h stk s holder xs of
        Inl e \<Rightarrow> Inl e
      | Inr (ms1, s1) \<Rightarrow>
          (case ser_members rep h stk s1 holder ys of
             Inl e \<Rightarrow> Inl e
           | Inr (ms2, s2) \<Rightarrow> Inr (ms1 @ ms2, s2)))"
proof (induction xs arbitrary: s)
  case Nil
  show ?case by (simp split: sum.splits)
next
  case (Cons x xs)
  show ?case
    by (simp add: Cons.IH split: sum.splits prod.splits)
qed

text \<open>The member at position \<open>n\<close> is serialised in a tracking state, and its result is
  the entry at position \<open>n\<close>.\<close>

lemma member_at:
  assumes tr: "tracks stk kp s"
    and run: "ser_members (serializer None None) h stk s (JRef (last stk)) ps = Inr (ms, s')"
    and n: "n < length ps"
  shows "\<exists>s0 j s1. tracks stk kp s0
           \<and> ser_prop (serializer None None) h stk s0 (JRef (last stk)) (fst (ps ! n)) (snd (ps ! n))
               = Inr (j, s1)
           \<and> n < length ms \<and> ms ! n = (fst (ps ! n), j)"
proof -
  let ?rep = "serializer None None"
  let ?holder = "JRef (last stk)"
  have split: "ps = take n ps @ (ps ! n) # drop (Suc n) ps"
    using n by (simp add: id_take_nth_drop)
  from members_total [OF tr, of h "take n ps"] obtain ms1 s0 where
    before: "ser_members ?rep h stk s ?holder (take n ps) = Inr (ms1, s0)"
    and tr0: "tracks stk kp s0" and names: "map fst ms1 = map fst (take n ps)"
    by blast
  from prop_total [OF tr0, of h "fst (ps ! n)" "snd (ps ! n)"] obtain j s1 where
    one: "ser_prop ?rep h stk s0 ?holder (fst (ps ! n)) (snd (ps ! n)) = Inr (j, s1)"
    and tr1: "tracks stk kp s1"
    by blast
  from members_total [OF tr1, of h "drop (Suc n) ps"] obtain ms2 s2 where
    after: "ser_members ?rep h stk s1 ?holder (drop (Suc n) ps) = Inr (ms2, s2)"
    by blast
  have "ser_members ?rep h stk s ?holder (take n ps @ (ps ! n) # drop (Suc n) ps)
      = Inr (ms1 @ (fst (ps ! n), j) # ms2, s2)"
    by (simp add: ser_members_append before one after)
  with run split have ms: "ms = ms1 @ (fst (ps ! n), j) # ms2"
    by simp
  from names have "length ms1 = n"
    using n by (metis length_map length_take min.absorb2 less_imp_le)
  with ms have "n < length ms \<and> ms ! n = (fst (ps ! n), j)"
    by (simp add: nth_append)
  with tr0 one show ?thesis by blast
qed

lemma indexed_nth:
  "n < length vs \<Longrightarrow> indexed vs ! n = (show_nat n, vs ! n)"
  by (simp add: indexed_def)

lemma length_indexed: "length (indexed vs) = length vs"
  by (simp add: indexed_def)

lemma leaf_at_assemble:
  assumes n: "n < length (own_props h (JRef a))"
    and len: "n < length ms"
    and entry: "ms ! n = (fst (own_props h (JRef a) ! n), Some t)"
    and leaf: "leaf_at t ks str"
  shows "leaf_at (assemble (heap_get h a) ms) (fst (own_props h (JRef a) ! n) # ks) str"
proof (cases "heap_get h a")
  case (Object ps)
  let ?k = "fst (own_props h (JRef a) ! n)"
  from len entry have "(?k, Some t) \<in> set ms"
    by (metis nth_mem)
  then have "(?k, t) \<in> set (concat (map (\<lambda>m. case snd m of None \<Rightarrow> [] | Some t \<Rightarrow> [(fst m, t)]) ms))"
    by force
  with leaf show ?thesis
    by (simp add: assemble_def Object leaf_at.member)
next
  case (Array vs)
  with n have nv: "n < length vs" and key: "fst (own_props h (JRef a) ! n) = show_nat n"
    by (simp_all add: length_indexed indexed_nth)
  let ?ts = "map (\<lambda>m. case snd m of None \<Rightarrow> TNull | Some t \<Rightarrow> t) ms"
  from len entry have "n < length ?ts" "?ts ! n = t"
    by simp_all
  with leaf have "leaf_at (TArr ?ts) (show_nat n # ks) str"
    by (auto intro: leaf_at.element)
  then show ?thesis
    by (simp add: assemble_def Array indexed_nth [OF nv])
qed

lemma placeholder_along_walk:
  assumes "tracks stk kp s"
    and "is_walk h (last stk) p"
    and "distinct (stk @ map snd p)"
    and "i < length (stk @ map snd p)"
    and "(k, JRef ((stk @ map snd p) ! i))
           \<in> set (own_props h (JRef (last (stk @ map snd p))))"
    and "ser_members (serializer None None) h stk s (JRef (last stk))
           (own_props h (JRef (last stk))) = Inr (ms, s')"
  shows "leaf_at (assemble (heap_get h (last stk)) ms) (map fst p @ [k])
           (circular_placeholder (take i (kp @ map fst p)))"
  using assms
proof (induction p arbitrary: stk kp s ms s')
  case Nil
  let ?ps = "own_props h (JRef (last stk))"
  from Nil.prems(4,5) obtain n where n: "n < length ?ps" "?ps ! n = (k, JRef (stk ! i))"
    and i: "i < length stk"
    by (auto simp: in_set_conv_nth)
  from member_at [OF Nil.prems(1) Nil.prems(6) n(1)] n(2) obtain s0 j s1 where
    tr0: "tracks stk kp s0"
    and one: "ser_prop (serializer None None) h stk s0 (JRef (last stk)) k (JRef (stk ! i))
               = Inr (j, s1)"
    and at: "n < length ms" "ms ! n = (k, j)"
    by auto
  from one have "j = Some (TStr (circular_placeholder (take i kp)))"
    by (simp add: ser_prop.simps serializer_replaces_ancestor [OF tr0 i])
  with at n(2) have "ms ! n = (fst (?ps ! n), Some (TStr (circular_placeholder (take i kp))))"
    by simp
  from leaf_at_assemble [OF n(1) at(1) this leaf_at.here] n(2) i show ?case
    by simp
next
  case (Cons step rest)
  let ?ps = "own_props h (JRef (last stk))"
  obtain k1 a1 where step: "step = (k1, a1)"
    by (cases step)
  from Cons.prems(2) step have edge: "(k1, JRef a1) \<in> set ?ps" and walk: "is_walk h a1 rest"
    by simp_all
  from Cons.prems(3) step have new: "a1 \<notin> set stk" "JRef a1 \<notin> JRef ` set stk"
    by auto
  from edge obtain n where n: "n < length ?ps" "?ps ! n = (k1, JRef a1)"
    by (auto simp: in_set_conv_nth)
  from member_at [OF Cons.prems(1) Cons.prems(6) n(1)] n(2) obtain s0 j s1 where
    tr0: "tracks stk kp s0"
    and one: "ser_prop (serializer None None) h stk s0 (JRef (last stk)) k1 (JRef a1)
               = Inr (j, s1)"
    and at: "n < length ms" "ms ! n = (k1, j)"
    by auto
  define s2 where "s2 = \<lparr>stack = map JRef stk, keys = kp @ [k1]\<rparr>"
  have tr2: "tracks (stk @ [a1]) (kp @ [k1]) s2"
    unfolding s2_def by (rule tracks_push [OF tr0 new(1)])
  from members_total [OF tr2, of h "own_props h (JRef a1)"] obtain ms' s3 where
    inner: "ser_members (serializer None None) h (stk @ [a1]) s2 (JRef (last (stk @ [a1])))
              (own_props h (JRef (last (stk @ [a1])))) = Inr (ms', s3)"
    by auto
  from one inner new(1) have j: "j = Some (assemble (heap_get h a1) ms')"
    by (simp add: ser_prop.simps serializer_passes_new [OF tr0 new(2)] s2_def)
  have same: "(stk @ [a1]) @ map snd rest = stk @ map snd (step # rest)"
    by (simp add: step)
  have "leaf_at (assemble (heap_get h (last (stk @ [a1]))) ms') (map fst rest @ [k])
          (circular_placeholder (take i ((kp @ [k1]) @ map fst rest)))"
  proof (rule Cons.IH [OF tr2 _ _ _ _ inner])
    show "is_walk h (last (stk @ [a1])) rest"
      using walk by simp
    show "distinct ((stk @ [a1]) @ map snd rest)"
      unfolding same by (rule Cons.prems(3))
    show "i < length ((stk @ [a1]) @ map snd rest)"
      unfolding same by (rule Cons.prems(4))
    show "(k, JRef (((stk @ [a1]) @ map snd rest) ! i))
            \<in> set (own_props h (JRef (last ((stk @ [a1]) @ map snd rest))))"
      unfolding same by (rule Cons.prems(5))
  qed
  then have inner_leaf: "leaf_at (assemble (heap_get h a1) ms') (map fst rest @ [k])
          (circular_placeholder (take i (kp @ map fst (step # rest))))"
    by (simp add: step)
  from at n(2) j have "ms ! n = (fst (?ps ! n), Some (assemble (heap_get h a1) ms'))"
    by simp
  from leaf_at_assemble [OF n(1) at(1) this inner_leaf] n(2) show ?case
    by (simp add: step)
qed

lemma sublist_within: "sublist xs ys \<Longrightarrow> sublist xs (ps @ ys @ ss)"
proof -
  assume "sublist xs ys"
  then obtain p s where "ys = p @ xs @ s"
    by (auto simp: sublist_def)
  then have "ps @ ys @ ss = (ps @ p) @ xs @ (s @ ss)"
    by simp
  then show ?thesis
    unfolding sublist_def by blast
qed

lemma sublist_join: "x \<in> set xs \<Longrightarrow> sublist x (join sep xs)"
proof (induction sep xs rule: join.induct)
  case (1 sep)
  then show ?case by simp
next
  case (2 sep y)
  then show ?case by simp
next
  case (3 sep y z zs)
  show ?case
  proof (cases "x = y")
    case True
    then show ?thesis by simp
  next
    case False
    with "3.prems" have "sublist x (join sep (z # zs))"
      by (intro "3.IH") simp
    from sublist_within [OF this, of "y @ sep" "[]"] show ?thesis
      by simp
  qed
qed

lemma leaf_at_text: "leaf_at t ks s \<Longrightarrow> sublist (quote s) (json_text t)"
proof (induction rule: leaf_at.induct)
  case (here s)
  show ?case by simp
next
  case (member k t ms ks s)
  let ?f = "\<lambda>m. quote (fst m) @ '':'' @ json_text (snd m)"
  from member.IH have "sublist (quote s) (?f (k, t))"
    using sublist_within [of "quote s" "json_text t" "quote k @ '':''" "[]"] by simp
  moreover from member.hyps(1) have "sublist (?f (k, t)) (join '','' (map ?f ms))"
    by (intro sublist_join) force
  ultimately have "sublist (quote s) (join '','' (map ?f ms))"
    by (rule sublist_order.order.trans)
  from sublist_within [OF this, of "''{''" "''}''"] show ?case
    by simp
next
  case (element i ts ks s)
  from element.hyps(1) have "sublist (json_text (ts ! i)) (join '','' (map json_text ts))"
    by (intro sublist_join) simp
  with element.IH have "sublist (quote s) (join '','' (map json_text ts))"
    by (rule sublist_order.order.trans)
  from sublist_within [OF this, of "''[''" "'']''"] show ?case
    by simp
qed

lemma quote_marker: "sublist ''[Circular ~'' (quote (circular_placeholder ks))"
proof -
  have plain: "concat (map quote_char ''[Circular ~'') = ''[Circular ~''"
    by (simp add: quote_char_def)
  obtain rest where "circular_placeholder ks = ''[Circular ~'' @ rest"
    by (cases "ks = []") (simp_all add: circular_placeholder_def)
  then have "quote (circular_placeholder ks)
      = [CHR 0x22] @ ''[Circular ~'' @ (concat (map quote_char rest) @ [CHR 0x22])"
    using plain by (simp add: quote_def)
  then show ?thesis
    by (metis sublist_appendI)
qed

lemma is_walk_append:
  "is_walk h a (q @ r) \<longleftrightarrow> is_walk h a q \<and> is_walk h (last (a # map snd q)) r"
  by (induction q arbitrary: a) auto

lemma first_back_edge:
  assumes "is_walk h a path" and "\<not> distinct (a # map snd path)"
  shows "\<exists>p k i. is_walk h a p \<and> distinct (a # map snd p) \<and> i < length (a # map snd p)
           \<and> (k, JRef ((a # map snd p) ! i))
                \<in> set (own_props h (JRef (last (a # map snd p))))"
  using assms
proof (induction path rule: rev_induct)
  case Nil
  then show ?case by simp
next
  case (snoc x xs)
  from snoc.prems(1) have walk: "is_walk h a xs"
    and edge: "(fst x, JRef (snd x)) \<in> set (own_props h (JRef (last (a # map snd xs))))"
    by (simp_all add: is_walk_append)
  show ?case
  proof (cases "distinct (a # map snd xs)")
    case False
    with snoc.IH walk show ?thesis by blast
  next
    case True
    with snoc.prems(2) have "snd x \<in> set (a # map snd xs)"
      by auto
    then obtain i where "i < length (a # map snd xs)" "(a # map snd xs) ! i = snd x"
      by (meson in_set_conv_nth)
    with edge have "i < length (a # map snd xs)
        \<and> (fst x, JRef ((a # map snd xs) ! i))
             \<in> set (own_props h (JRef (last (a # map snd xs))))"
      by simp
    with walk True show ?thesis
      by blast
  qed
qed

text \<open>
  Claim C4. Serialising any state with the replacer of \<^verbatim>\<open>serializer()\<close> returns (the
  function is total) and raises nothing. When a walk from the root object comes back to an
  object it has left, the result is a text, and there is a chain of distinct objects from
  the root whose last object has a property \<open>k\<close> referring back into the chain, to the
  object \<open>i\<close> steps from the root: at the path of that property the tree holds, in place of
  the object, the placeholder that names the first \<open>i\<close> property names of the chain
  (\<^verbatim>\<open>[Circular ~]\<close> for the root itself). The text contains that placeholder as a JSON
  string, and so the characters \<^verbatim>\<open>[Circular ~\<close>.
\<close>

theorem serializer_is_cycle_safe:
  "(\<exists>res. JSON_stringify h v (serializer None None) serializer_init = Inr res)
   \<and> (is_walk h a path \<and> \<not> distinct (a # map snd path) \<longrightarrow>
        (\<exists>t p k i. JSON_stringify h (JRef a) (serializer None None) serializer_init = Inr (Some t)
           \<and> is_walk h a p \<and> distinct (a # map snd p) \<and> i \<le> length p
           \<and> (k, JRef ((a # map snd p) ! i)) \<in> set (own_props h (JRef (last (a # map snd p))))
           \<and> leaf_at t (map fst p @ [k]) (circular_placeholder (take i (map fst p)))
           \<and> sublist (quote (circular_placeholder (take i (map fst p)))) (json_text t)
           \<and> sublist ''[Circular ~'' (json_text t)))"
proof (intro conjI impI)
  show "\<exists>res. JSON_stringify h v (serializer None None) serializer_init = Inr res"
    by (rule stringify_never_throws)
next
  assume "is_walk h a path \<and> \<not> distinct (a # map snd path)"
  with first_back_edge [of h a path] obtain p k i where
    walk: "is_walk h a p" and simple: "distinct (a # map snd p)"
    and i: "i < length (a # map snd p)"
    and cyc: "(k, JRef ((a # map snd p) ! i)) \<in> set (own_props h (JRef (last (a # map snd p))))"
    by blast
  from stringify_root_object [of h a] obtain ms s' where
    run: "ser_members (serializer None None) h [a] \<lparr>stack = [JRef a], keys = []\<rparr> (JRef a)
              (own_props h (JRef a)) = Inr (ms, s')"
    and out: "JSON_stringify h (JRef a) (serializer None None) serializer_init
          = Inr (Some (assemble (heap_get h a) ms))"
    by blast
  let ?t = "assemble (heap_get h a) ms"
  let ?mark = "circular_placeholder (take i (map fst p))"
  have "leaf_at (assemble (heap_get h (last [a])) ms) (map fst p @ [k])
          (circular_placeholder (take i ([] @ map fst p)))"
    by (rule placeholder_along_walk [OF tracks_root, where s' = s'])
       (use walk simple i cyc run in simp_all)
  then have leaf: "leaf_at ?t (map fst p @ [k]) ?mark"
    by simp
  then have inside: "sublist (quote ?mark) (json_text ?t)"
    by (rule leaf_at_text)
  with quote_marker [of "take i (map fst p)"] have "sublist ''[Circular ~'' (json_text ?t)"
    by (rule sublist_order.order.trans)
  with out walk simple i cyc leaf inside
  show "\<exists>t p k i. JSON_stringify h (JRef a) (serializer None None) serializer_init = Inr (Some t)
           \<and> is_walk h a p \<and> distinct (a # map snd p) \<and> i \<le> length p
           \<and> (k, JRef ((a # map snd p) ! i)) \<in> set (own_props h (JRef (last (a # map snd p))))
           \<and> leaf_at t (map fst p @ [k]) (circular_placeholder (take i (map fst p)))
           \<and> sublist (quote (circular_placeholder (take i (map fst p)))) (json_text t)
           \<and> sublist ''[Circular ~'' (json_text t)"
    by (intro exI [of _ ?t] exI [of _ p] exI [of _ k] exI [of _ i]) simp
qed

lemma self_reference_output:
  "JSON_stringify self_reference (JRef 0) (serializer None None) serializer_init
     = Inr (Some (TObj [(''self'', TStr ''[Circular ~]'')]))"
  by code_simp

lemma nested_reference_output:
  "JSON_stringify nested_reference (JRef 0) (serializer None None) serializer_init
     = Inr (Some (TObj [(''a'', TObj [(''b'', TObj [(''up'', TStr ''[Circular ~.a]'')])])]))"
  by code_simp

theorem serializer_is_cycle_safe_witness:
  "is_walk self_reference 0 [(''self'', 0)]
   \<and> \<not> distinct (0 # map snd [(''self'', 0 :: nat)])
   \<and> JSON_stringify self_reference (JRef 0) (serializer None None) serializer_init
        = Inr (Some (TObj [(''self'', TStr ''[Circular ~]'')]))
   \<and> (\<exists>p k i. is_walk self_reference 0 p \<and> distinct (0 # map snd p) \<and> i \<le> length p
          \<and> (k, JRef ((0 # map snd p) ! i))
               \<in> set (own_props self_reference (JRef (last (0 # map snd p))))
          \<and> leaf_at (TObj [(''self'', TStr ''[Circular ~]'')]) (map fst p @ [k])
               (circular_placeholder (take i (map fst p)))
          \<and> sublist (quote (circular_placeholder (take i (map fst p))))
               (json_text (TObj [(''self'', TStr ''[Circular ~]'')])))
   \<and> sublist ''[Circular ~'' (json_text (TObj [(''self'', TStr ''[Circular ~]'')]))"
proof -
  have walk: "is_walk self_reference 0 [(''self'', 0)]"
    by (simp add: self_reference_def heap_get_def)
  have again: "\<not> distinct (0 # map snd [(''self'', 0 :: nat)])"
    by simp
  from serializer_is_cycle_safe [of self_reference JUndefined 0 "[(''self'', 0)]"] walk again
  obtain t p k i where
    out: "JSON_stringify self_reference (JRef 0) (serializer None None) serializer_init
            = Inr (Some t)"
    and found: "is_walk self_reference 0 p \<and> distinct (0 # map snd p) \<and> i \<le> length p
          \<and> (k, JRef ((0 # map snd p) ! i))
               \<in> set (own_props self_reference (JRef (last (0 # map snd p))))
          \<and> leaf_at t (map fst p @ [k]) (circular_placeholder (take i (map fst p)))
          \<and> sublist (quote (circular_placeholder (take i (map fst p)))) (json_text t)"
    and marker: "sublist ''[Circular ~'' (json_text t)"
    by blast
  from out have t: "t = TObj [(''self'', TStr ''[Circular ~]'')]"
    by (simp only: self_reference_output sum.inject option.inject)
  from found marker walk again show ?thesis
    unfolding t using self_reference_output by blast
qed

section \<open>The console report\<close>

text \<open>
  Claim C7 as stated fails where the action switches logging. With logging on when the
  update starts and a stack text that is deep enough, an action that turns logging off
  gets no report at all. With logging on when the report is written, an action that
  turned it on gets a report whose \<^verbatim>\<open>PREV STATE\<close> is \<^verbatim>\<open>undefined\<close>, not the snapshot
  of the previous state \<^verbatim>\<open>{message: 'hello'}\<close>.
\<close>

theorem logged_update_can_stay_silent:
  "enabled (messages_store True)
   \<and> 4 < length (js_split ''at '' v8_trace)
   \<and> (\<exists>w'. update (Updater (switch_logging False)) (Some v8_trace) (messages_store True) = Inr w'
          \<and> console w' = [])
   \<and> (\<exists>w'. update (Updater (switch_logging True)) (Some v8_trace) (messages_store False) = Inr w'
          \<and> enabled w'
          \<and> console w' ! 1 = Log [Live (JStr ''PREV STATE''), Live JUndefined])
   \<and> snapshot (objects (messages_store False)) (get (messages_store False))
        = Inr (TObj [(''message'', TStr ''hello'')])"
proof -
  have "\<not> isl (update (Updater (switch_logging False)) (Some v8_trace) (messages_store True))
      \<and> console (projr (update (Updater (switch_logging False)) (Some v8_trace)
                         (messages_store True))) = []"
    by code_simp
  then have off: "\<exists>w'. update (Updater (switch_logging False)) (Some v8_trace)
                (messages_store True) = Inr w' \<and> console w' = []"
    by (cases "update (Updater (switch_logging False)) (Some v8_trace) (messages_store True)")
       simp_all
  have "\<not> isl (update (Updater (switch_logging True)) (Some v8_trace) (messages_store False))
      \<and> enabled (projr (update (Updater (switch_logging True)) (Some v8_trace)
                         (messages_store False)))
      \<and> console (projr (update (Updater (switch_logging True)) (Some v8_trace)
                         (messages_store False))) ! 1
          = Log [Live (JStr ''PREV STATE''), Live JUndefined]"
    by code_simp
  then have on: "\<exists>w'. update (Updater (switch_logging True)) (Some v8_trace)
                (messages_store False) = Inr w' \<and> enabled w'
          \<and> console w' ! 1 = Log [Live (JStr ''PREV STATE''), Live JUndefined]"
    by (cases "update (Updater (switch_logging True)) (Some v8_trace) (messages_store False)")
       simp_all
  have "snapshot (objects (messages_store False)) (get (messages_store False))
        = Inr (TObj [(''message'', TStr ''hello'')])"
    by code_simp
  with off on show ?thesis
    using v8_trace_frames by (simp add: messages_store_def)
qed

text \<open>
  Claim C7, amended. When logging is on both before and after the action has run, the
  stack text has a fifth \<^verbatim>\<open>at\<close> entry, and the previous state is not \<^verbatim>\<open>undefined\<close>, the
  previous state has a snapshot, the update publishes, and it appends to the console
  exactly: a collapsed group titled with the
  first word of that entry, the partial value applied, and the second word of the entry;
  the line \<^verbatim>\<open>PREV STATE\<close> with the snapshot; the line \<^verbatim>\<open>NEXT STATE\<close> with the published
  value; a stack trace; and the end of the group.
\<close>

theorem console_report_shape:
  assumes "enabled w" and "apply_action act w (get w) = (partial, w1)" and "enabled w1"
    and "get w \<noteq> JUndefined"
    and "4 < length (js_split ''at '' text)"
  shows "\<exists>w' t. update act (Some text) w = Inr w'
           \<and> snapshot (objects w) (get w) = Inr t
           \<and> console w' = console w @
               [GroupCollapsed [Live (js_elem (js_split '' '' (js_split ''at '' text ! 4)) 0),
                                Live partial,
                                Live (js_elem (js_split '' '' (js_split ''at '' text ! 4)) 1)],
                Log [Live (JStr ''PREV STATE''), Parsed t],
                Log [Live (JStr ''NEXT STATE''), Live (get w')],
                Trace,
                GroupEnd]"
proof -
  from assms(4) snapshot_fails_iff [of "objects w" "get w"]
  obtain t where snap: "snapshot (objects w) (get w) = Inr t"
    by (cases "snapshot (objects w) (get w)") auto
  from assms(2) have "console w1 = console w"
    by (auto simp: apply_action_def split: action.splits prod.splits)
  moreover from assms(5) have "stack_info (Some text)
      = Inr (js_elem (js_split '' '' (js_split ''at '' text ! 4)) 0,
             js_elem (js_split '' '' (js_split ''at '' text ! 4)) 1)"
    by (simp add: stack_info_def Let_def)
  ultimately show ?thesis
    using assms(1-3) snap
    by (simp add: update_def Let_def alloc_def writable_set_def log_def get_def)
qed

lemma snapshot_counter:
  "snapshot (objects (counter_store True)) (get (counter_store True))
     = Inr (TObj [(''a'', TNum 1), (''b'', TNum 2)])"
  by code_simp

theorem console_report_shape_witness:
  "enabled (counter_store True)
   \<and> apply_action (Updater increment_b) (counter_store True) (get (counter_store True))
        = (JRef 1, counter_between)
   \<and> enabled counter_between
   \<and> get (counter_store True) \<noteq> JUndefined
   \<and> 4 < length (js_split ''at '' v8_trace)
   \<and> (\<exists>w'. update (Updater increment_b) (Some v8_trace) (counter_store True) = Inr w'
          \<and> console w' =
               [GroupCollapsed [Live (JStr ''HTMLButtonElement.click''), Live (JRef 1),
                                Live (JStr ''(App.svelte:21:5)'')],
                Log [Live (JStr ''PREV STATE''), Parsed (TObj [(''a'', TNum 1), (''b'', TNum 2)])],
                Log [Live (JStr ''NEXT STATE''), Live (get w')],
                Trace,
                GroupEnd])"
proof -
  have on: "enabled (counter_store True)" and on': "enabled counter_between"
    and quiet: "console (counter_store True) = []"
    and held: "get (counter_store True) \<noteq> JUndefined"
    by (simp_all add: counter_store_def counter_between_def get_def)
  from console_report_shape [OF on counter_action_run on' held v8_trace_frames]
  show ?thesis
    unfolding v8_trace_caller quiet snapshot_counter
    using on on' counter_action_run held v8_trace_frames by auto
qed

section \<open>The flag is read twice\<close>

text \<open>
  Claim C10. The flag is read before the action runs (line 73) and again after it (line
  80). An updater that finds the flag off and leaves it on gets a report whose
  \<^verbatim>\<open>PREV STATE\<close> is \<^verbatim>\<open>undefined\<close>, as no snapshot was taken. An updater that finds the flag on
  and leaves it off gets no report, although the snapshot was taken: where taking it
  fails the update is aborted, and otherwise the update publishes with the console
  untouched.
\<close>

theorem flag_is_read_twice:
  assumes "f (objects w) (enabled w) (get w) = (h1, en', r)"
  shows "(\<not> enabled w \<and> en' \<and> stack_info trace = Inr (fname, flink) \<longrightarrow>
            (\<exists>w'. update (Updater f) trace w = Inr w'
               \<and> console w' = console w @
                   [GroupCollapsed [Live fname, Live r, Live flink],
                    Log [Live (JStr ''PREV STATE''), Live JUndefined],
                    Log [Live (JStr ''NEXT STATE''), Live (get w')],
                    Trace,
                    GroupEnd]))
       \<and> (enabled w \<and> \<not> en' \<longrightarrow>
            (case snapshot (objects w) (get w) of
               Inl e \<Rightarrow> update (Updater f) trace w = Inl (e, w)
             | Inr t \<Rightarrow> (\<exists>w'. update (Updater f) trace w = Inr w' \<and> console w' = console w)))"
  using assms
  by (auto simp: update_def Let_def alloc_def writable_set_def log_def get_def apply_action_def
        split: sum.splits)

theorem flag_is_read_twice_witness:
  "(\<exists>w'. update (Updater (switch_logging True)) (Some v8_trace) (messages_store False) = Inr w'
       \<and> console w' =
           [GroupCollapsed [Live (JStr ''HTMLButtonElement.click''), Live (JRef 1),
                            Live (JStr ''(App.svelte:21:5)'')],
            Log [Live (JStr ''PREV STATE''), Live JUndefined],
            Log [Live (JStr ''NEXT STATE''), Live (get w')],
            Trace,
            GroupEnd])
   \<and> snapshot (objects (messages_store True)) (get (messages_store True))
        = Inr (TObj [(''message'', TStr ''hello'')])
   \<and> (\<exists>w'. update (Updater (switch_logging False)) (Some v8_trace) (messages_store True) = Inr w'
          \<and> console w' = [])
   \<and> update (Updater (switch_logging False)) (Some v8_trace) (empty_store True)
        = Inl (SyntaxError, empty_store True)"
proof -
  have turn_on: "switch_logging True (objects (messages_store False))
      (enabled (messages_store False)) (get (messages_store False))
        = (objects (messages_store False), True, JRef 1)"
    and turn_off: "switch_logging False (objects (messages_store True))
      (enabled (messages_store True)) (get (messages_store True))
        = (objects (messages_store True), False, JRef 1)"
    and turn_off': "switch_logging False (objects (empty_store True))
      (enabled (empty_store True)) (get (empty_store True))
        = (objects (empty_store True), False, JRef 1)"
    by (simp_all add: switch_logging_def)
  have snap: "snapshot (objects (messages_store True)) (get (messages_store True))
        = Inr (TObj [(''message'', TStr ''hello'')])"
    and no_snap: "snapshot (objects (empty_store True)) (get (empty_store True)) = Inl SyntaxError"
    by code_simp+
  have flags: "\<not> enabled (messages_store False)" "enabled (messages_store True)"
    "enabled (empty_store True)"
    "console (messages_store False) = []" "console (messages_store True) = []"
    by (simp_all add: messages_store_def empty_store_def)
  from flag_is_read_twice [where f = "switch_logging True" and w = "messages_store False"
      and trace = "Some v8_trace" and fname = "JStr ''HTMLButtonElement.click''"
      and flink = "JStr ''(App.svelte:21:5)''", OF turn_on]
    flag_is_read_twice [where f = "switch_logging False" and w = "messages_store True"
      and trace = "Some v8_trace", OF turn_off]
    flag_is_read_twice [where f = "switch_logging False" and w = "empty_store True"
      and trace = "Some v8_trace", OF turn_off']
  show ?thesis
    using v8_trace_info snap no_snap flags by simp
qed

end
